theory Spec2Isabelle
  imports Complex_Main
begin

section \<open>Characters and strings\<close>

text \<open>
  A Python \<open>str\<close> is a sequence of code points. The model covers the code points
  below 256 (Latin-1, which holds every character of the stopword and keyword lists):
  one \<open>char\<close> is one code point, \<open>of_char\<close> reads its number. The three character
  classes below are Python's \<open>str.lower\<close>, the \<open>\w\<close> of \<open>re\<close> on \<open>str\<close> patterns and
  \<open>str.isspace\<close> on that range.
\<close>

definition lower_chr :: "char \<Rightarrow> char" where
  "lower_chr c =
     (let n = (of_char c :: nat)
      in if (65 \<le> n \<and> n \<le> 90) \<or> (192 \<le> n \<and> n \<le> 222 \<and> n \<noteq> 215)
         then char_of (n + 32) else c)"

definition lower_str :: "string \<Rightarrow> string" where
  "lower_str s = map lower_chr s"

definition is_alnum_chr :: "char \<Rightarrow> bool" where
  "is_alnum_chr c =
     (let n = (of_char c :: nat)
      in (48 \<le> n \<and> n \<le> 57) \<or> (65 \<le> n \<and> n \<le> 90) \<or> (97 \<le> n \<and> n \<le> 122)
         \<or> n = 170 \<or> n = 178 \<or> n = 179 \<or> n = 181 \<or> n = 185 \<or> n = 186
         \<or> (188 \<le> n \<and> n \<le> 190) \<or> (192 \<le> n \<and> n \<le> 214)
         \<or> (216 \<le> n \<and> n \<le> 246) \<or> 248 \<le> n)"

definition is_word_chr :: "char \<Rightarrow> bool" where
  "is_word_chr c = (is_alnum_chr c \<or> c = CHR ''_'')"

definition isspace_chr :: "char \<Rightarrow> bool" where
  "isspace_chr c =
     (let n = (of_char c :: nat)
      in (9 \<le> n \<and> n \<le> 13) \<or> (28 \<le> n \<and> n \<le> 32) \<or> n = 133 \<or> n = 160)"

text \<open>\<open>s.strip()\<close>: leading and trailing whitespace removed.\<close>

definition strip :: "string \<Rightarrow> string" where
  "strip s = rev (dropWhile isspace_chr (rev (dropWhile isspace_chr s)))"

text \<open>\<open>m in s\<close> on strings: \<open>m\<close> occurs in \<open>s\<close> as a contiguous substring.\<close>

fun starts_with :: "string \<Rightarrow> string \<Rightarrow> bool" where
  "starts_with [] s = True"
| "starts_with (a # m) [] = False"
| "starts_with (a # m) (b # s) = (a = b \<and> starts_with m s)"

fun str_in :: "string \<Rightarrow> string \<Rightarrow> bool" where
  "str_in m [] = (m = [])"
| "str_in m (b # s) = (starts_with m (b # s) \<or> str_in m s)"

text \<open>
  \<open>s.rsplit(sep, 1)\<close> for a one-character separator: the string is cut at the last
  occurrence of \<open>sep\<close>; without an occurrence the result is \<open>[s]\<close>.
\<close>

definition rsplit1 :: "char \<Rightarrow> string \<Rightarrow> string list" where
  "rsplit1 sep s =
     (if sep \<in> set s
      then [rev (tl (dropWhile (\<lambda>c. c \<noteq> sep) (rev s))), rev (takeWhile (\<lambda>c. c \<noteq> sep) (rev s))]
      else [s])"

text \<open>\<open>re.findall(r'\w+', s)\<close>: the maximal runs of word characters, left to right.\<close>

function findall_w :: "string \<Rightarrow> string list" where
  "findall_w [] = []"
| "findall_w (c # cs) =
     (if is_word_chr c
      then (c # takeWhile is_word_chr cs) # findall_w (dropWhile is_word_chr cs)
      else findall_w cs)"
  by pat_completeness auto
termination
  by (relation "measure length") (auto simp: length_dropWhile_le less_Suc_eq_le)

section \<open>Term vectors\<close>

text \<open>
  A \<open>Counter\<close> is a dictionary from term to count, kept in insertion order as Python's
  dictionaries are. A term that is absent reads as count 0.
\<close>

type_synonym counter = "(string \<times> int) list"

fun incr :: "string \<Rightarrow> counter \<Rightarrow> counter" where
  "incr m [] = [(m, 1)]"
| "incr m ((k, n) # c) = (if k = m then (k, n + 1) # c else (k, n) # incr m c)"

definition counter_of :: "string list \<Rightarrow> counter" where
  "counter_of mots = foldl (\<lambda>c m. incr m c) [] mots"

definition counter_get :: "counter \<Rightarrow> string \<Rightarrow> int" where
  "counter_get vec w = (case map_of vec w of None \<Rightarrow> 0 | Some n \<Rightarrow> n)"

definition stopwords :: "string list" where
  "stopwords =
     [''le'', ''la'', ''les'', ''de'', ''du'', ''des'', ''un'', ''une'', ''et'', ''ou'',
      [CHR 0xE0], ''au'', ''aux'', ''en'', ''dans'',
      ''sur'', ''pour'', ''par'', ''avec'', ''sans'', ''sous'', ''chez'', ''ce'', ''cette'',
      ''ces'', ''son'', ''sa'', ''ses'',
      ''mon'', ''ma'', ''mes'', ''ton'', ''ta'', ''tes'', ''je'', ''tu'', ''il'', ''elle'',
      ''nous'', ''vous'', ''ils'', ''elles'',
      ''qui'', ''que'', ''quoi'', ''dont'', [CHR ''o'', CHR 0xF9], ''quand'', ''comment'',
      ''mais'', ''est'', ''sont'', ''pas'', ''plus'', [CHR ''t'', CHR ''r'', CHR 0xE8, CHR ''s'']]"

definition nettoyer_et_vectoriser :: "string \<Rightarrow> counter" where
  "nettoyer_et_vectoriser texte =
     (let texte = lower_str texte;
          mots = findall_w texte;
          mots = filter (\<lambda>m. m \<notin> set stopwords \<and> length m > 2) mots
      in counter_of mots)"

section \<open>Floating point\<close>

text \<open>
  A Python \<open>float\<close> is an IEEE-754 binary64 number. A finite one is modelled by the real
  number it denotes, and every operation of the source rounds its exact result to the
  nearest double, a tie going to the even significand: \<open>fl\<close>. The unit of a double with
  exponent \<open>e\<close> is \<open>2^(e - 52)\<close>; below \<open>2^-1022\<close> the numbers are subnormal, with the
  fixed unit \<open>2^-1074\<close>.
\<close>

definition round_half_even :: "real \<Rightarrow> int" where
  "round_half_even y =
     (let f = \<lfloor>y\<rfloor>; d = y - of_int f
      in if d < 1 / 2 then f else if d > 1 / 2 then f + 1 else if even f then f else f + 1)"

definition exposant :: "real \<Rightarrow> int" where
  "exposant x = max \<lfloor>log 2 \<bar>x\<bar>\<rfloor> (- 1022)"

definition ulp :: "real \<Rightarrow> real" where
  "ulp x = 2 powr (of_int (exposant x) - 52)"

definition fl :: "real \<Rightarrow> real" where
  "fl x = (if x = 0 then 0 else of_int (round_half_even (x / ulp x)) * ulp x)"

text \<open>
  A magnitude of \<open>2^1024 - 2^970\<close> or more rounds beyond the largest double. Converting
  such an \<open>int\<close> to \<open>float\<close>, as \<open>math.sqrt(n)\<close> and \<open>n / x\<close> do, raises
  \<open>OverflowError\<close>; a product of two doubles of that size is \<open>inf\<close>.
\<close>

definition deborde :: "real \<Rightarrow> bool" where
  "deborde x = (2 ^ 1024 - 2 ^ 970 \<le> \<bar>x\<bar>)"

datatype error =
    HTTPException int string
  | KeyError string
  | IndexError
  | TypeError
  | OverflowError

definition float_of_int :: "int \<Rightarrow> error + real" where
  "float_of_int n = (if deborde (of_int n) then Inl OverflowError else Inr (fl (of_int n)))"

text \<open>
  \<open>cosine_similarity\<close>: the numerator and the two sums of squares are Python integers,
  exact. \<open>math.sqrt\<close> converts each sum to a double and rounds the root; the product and
  the quotient are rounded. When the product is \<open>inf\<close>, \<open>den != 0\<close> holds and
  \<open>num / den\<close> is \<open>0.0\<close>, after the conversion of \<open>num\<close>. The quotient cannot overflow:
  a \<open>den\<close> other than 0 is at least 1.
\<close>

definition cosine_similarity :: "counter \<Rightarrow> counter \<Rightarrow> error + real" where
  "cosine_similarity vec1 vec2 =
     (let communs = filter (\<lambda>w. w \<in> set (map fst vec2)) (remdups (map fst vec1))
      in if communs = [] then Inr 0
         else
           let num = sum_list (map (\<lambda>w. counter_get vec1 w * counter_get vec2 w) communs)
           in case float_of_int (sum_list (map (\<lambda>v. v * v) (map snd vec1))) of
                Inl e \<Rightarrow> Inl e
              | Inr s1 \<Rightarrow>
                 (case float_of_int (sum_list (map (\<lambda>v. v * v) (map snd vec2))) of
                    Inl e \<Rightarrow> Inl e
                  | Inr s2 \<Rightarrow>
                     (let r1 = fl (sqrt s1); r2 = fl (sqrt s2)
                      in if deborde (r1 * r2)
                         then (case float_of_int num of Inl e \<Rightarrow> Inl e | Inr n \<Rightarrow> Inr 0)
                         else
                           let den = fl (r1 * r2)
                           in if den \<noteq> 0
                              then (case float_of_int num of
                                      Inl e \<Rightarrow> Inl e
                                    | Inr n \<Rightarrow> Inr (fl (n / den)))
                              else Inr 0)))"

section \<open>The corpus and its index\<close>

text \<open>
  A chunk is a JSON object read from the corpus file. The four keys the module reads are
  the fields of the record; a key that the object lacks is \<open>None\<close>, and reading it with
  \<open>c["key"]\<close> raises \<open>KeyError\<close>.
\<close>

record chunk =
  c_text :: "string option"
  c_chunk_id :: "int option"
  c_source_url :: "string option"
  c_source_title :: "string option"

text \<open>\<open>vecteurs_chunks = [nettoyer_et_vectoriser(c["text"]) for c in chunks]\<close>\<close>

fun vecteurs_chunks :: "chunk list \<Rightarrow> error + counter list" where
  "vecteurs_chunks [] = Inr []"
| "vecteurs_chunks (c # cs) =
     (case c_text c of
        None \<Rightarrow> Inl (KeyError ''text'')
      | Some t \<Rightarrow>
          (case vecteurs_chunks cs of
             Inl e \<Rightarrow> Inl e
           | Inr vs \<Rightarrow> Inr (nettoyer_et_vectoriser t # vs)))"

section \<open>The query\<close>

definition mots_forts :: "string list" where
  "mots_forts =
     [''linux'', ''reconditionnement'', ''nird'', ''primtux'', ''tchap'',
      CHR 0xE9 # ''cologique'', ''libre'', ''inclusif'', ''durable'', ''obsolescence'',
      ''forge'']"

text \<open>
  The score of one chunk: the cosine similarity, then the inner loop over
  \<open>mots_forts\<close>, where \<open>score += 0.18\<close> adds the double nearest to 0.18 and rounds the
  sum, for every keyword found in the lowercased question.
\<close>

definition score_chunk :: "string \<Rightarrow> counter \<Rightarrow> counter \<Rightarrow> error + real" where
  "score_chunk question vec_q vec_chunk =
     (case cosine_similarity vec_q vec_chunk of
        Inl e \<Rightarrow> Inl e
      | Inr score \<Rightarrow>
          Inr (foldl (\<lambda>score mot. if str_in mot (lower_str question)
                                  then fl (score + fl (18 / 100)) else score)
                 score mots_forts))"

text \<open>
  The loop \<open>for i, vec_chunk in enumerate(vecteurs_chunks)\<close>. The state is the pair
  \<open>(meilleur_score, meilleur_chunk)\<close>; \<open>chunks[i]\<close> raises \<open>IndexError\<close> out of range.
\<close>

fun boucle ::
  "string \<Rightarrow> counter \<Rightarrow> chunk list \<Rightarrow> nat \<Rightarrow> counter list \<Rightarrow> real \<times> chunk option
     \<Rightarrow> error + real \<times> chunk option" where
  "boucle question vec_q chunks i [] st = Inr st"
| "boucle question vec_q chunks i (vec_chunk # rest) (meilleur_score, meilleur_chunk) =
     (case score_chunk question vec_q vec_chunk of
        Inl e \<Rightarrow> Inl e
      | Inr score \<Rightarrow>
          if score > meilleur_score
          then (if i < length chunks
                then boucle question vec_q chunks (Suc i) rest (score, Some (chunks ! i))
                else Inl IndexError)
          else boucle question vec_q chunks (Suc i) rest (meilleur_score, meilleur_chunk))"

record reponse_nird =
  question :: string
  contexte :: string
  confiance :: real
  chunk_id :: int
  source_url :: string
  source_title :: string
  timestamp :: string

text \<open>
  \<open>round(x, n)\<close> of Python on a float: the exact value of \<open>x\<close> is rounded to the nearest
  multiple of \<open>10^-n\<close>, a tie to the even one, and the result is the double nearest to
  that decimal.
\<close>

definition py_round :: "real \<Rightarrow> nat \<Rightarrow> real" where
  "py_round x n = fl (of_int (round_half_even (x * 10 ^ n)) / 10 ^ n)"

text \<open>The text of the answer: stripped, and cut when longer than 600 characters.\<close>

definition tronquer :: "string \<Rightarrow> string" where
  "tronquer t =
     (let texte = strip t
      in if length texte > 600 then hd (rsplit1 CHR '' '' (take 600 texte)) @ ''...''
         else texte)"

definition reponse_defaut :: "string \<Rightarrow> string \<Rightarrow> reponse_nird" where
  "reponse_defaut q now =
     \<lparr>question = q,
      contexte = ''La d'' @ [CHR 0xE9] @ ''marche NIRD promeut un num'' @ [CHR 0xE9]
        @ ''rique Inclusif, Responsable et Durable dans les '' @ [CHR 0xE9]
        @ ''tablissements scolaires via Linux, le reconditionnement et les logiciels libres.'',
      confiance = 0,
      chunk_id = - 1,
      source_url = ''https://nird.forge.apps.education.fr/'',
      source_title = ''Accueil'',
      timestamp = now\<rparr>"

text \<open>
  The final answer (the \<open>if meilleur_score > 0.12\<close> of the handler, 0.12 being the double
  nearest to it). In the first branch
  the fields of \<open>meilleur_chunk\<close> are read in the order of the source; subscripting
  \<open>None\<close> raises \<open>TypeError\<close>. \<open>now\<close> is \<open>datetime.now().isoformat()\<close>.
\<close>

definition reponse_finale :: "string \<Rightarrow> string \<Rightarrow> real \<times> chunk option \<Rightarrow> error + reponse_nird" where
  "reponse_finale q now st =
     (case st of (meilleur_score, meilleur_chunk) \<Rightarrow>
        if meilleur_score > fl (12 / 100)
        then (case meilleur_chunk of
                None \<Rightarrow> Inl TypeError
              | Some c \<Rightarrow>
                 (case c_text c of
                    None \<Rightarrow> Inl (KeyError ''text'')
                  | Some t \<Rightarrow>
                     (case c_chunk_id c of
                        None \<Rightarrow> Inl (KeyError ''chunk_id'')
                      | Some cid \<Rightarrow>
                         (case c_source_url c of
                            None \<Rightarrow> Inl (KeyError ''source_url'')
                          | Some url \<Rightarrow>
                             (case c_source_title c of
                                None \<Rightarrow> Inl (KeyError ''source_title'')
                              | Some title \<Rightarrow>
                                 Inr \<lparr>question = q,
                                      contexte = tronquer t,
                                      confiance = py_round meilleur_score 3,
                                      chunk_id = cid,
                                      source_url = url,
                                      source_title = title,
                                      timestamp = now\<rparr>)))))
        else Inr (reponse_defaut q now))"

text \<open>
  The handler after its guard: from \<open>vec_q = nettoyer_et_vectoriser(question)\<close> to the
  end. \<open>chunks\<close> and \<open>vecteurs\<close> are the two module-level lists.
\<close>

definition chercher_dans_nird_corps ::
  "chunk list \<Rightarrow> counter list \<Rightarrow> string \<Rightarrow> string \<Rightarrow> error + reponse_nird" where
  "chercher_dans_nird_corps chunks vecteurs now q =
     (let vec_q = nettoyer_et_vectoriser q
      in case boucle q vec_q chunks 0 vecteurs (0, None) of
           Inl e \<Rightarrow> Inl e
         | Inr st \<Rightarrow> reponse_finale q now st)"

text \<open>The handler: the question of the payload is stripped, and refused when empty.\<close>

definition chercher_dans_nird ::
  "chunk list \<Rightarrow> counter list \<Rightarrow> string \<Rightarrow> string \<Rightarrow> error + reponse_nird" where
  "chercher_dans_nird chunks vecteurs now payload_question =
     (let q = strip payload_question
      in if q = [] then Inl (HTTPException 400 ''Question vide'')
         else chercher_dans_nird_corps chunks vecteurs now q)"

section \<open>Notions used in the statements\<close>

text \<open>The number of keywords of \<open>mots_forts\<close> that occur in the lowercased question.\<close>

definition nb_mots_forts :: "string \<Rightarrow> nat" where
  "nb_mots_forts q = length (filter (\<lambda>mot. str_in mot (lower_str q)) mots_forts)"

text \<open>
  The length of a Python \<open>str\<close> is at most \<open>sys.maxsize\<close>, which is \<open>2^63 - 1\<close> on a 64-bit
  build. \<open>entrees_python\<close> says so of the question and of the texts of the corpus.
\<close>

definition sys_maxsize :: nat where
  "sys_maxsize = 2 ^ 63 - 1"

definition entrees_python :: "chunk list \<Rightarrow> string \<Rightarrow> bool" where
  "entrees_python chunks q =
     (length q \<le> sys_maxsize
      \<and> (\<forall>c \<in> set chunks. \<forall>t. c_text c = Some t \<longrightarrow> length t \<le> sys_maxsize))"

section \<open>Example inputs\<close>

definition chunk_linux :: chunk where
  "chunk_linux = \<lparr>c_text = Some ''Linux'', c_chunk_id = Some 1,
     c_source_url = Some ''https://x'', c_source_title = Some ''A''\<rparr>"

definition chunk_linux_bis :: chunk where
  "chunk_linux_bis = \<lparr>c_text = Some ''linux !'', c_chunk_id = Some 2,
     c_source_url = Some ''https://y'', c_source_title = Some ''B''\<rparr>"

definition chunk_seuil :: chunk where
  "chunk_seuil = \<lparr>c_text = Some ''aaa xxx xxx yyy yyy zzz zzz zzz zzz'', c_chunk_id = Some 7,
     c_source_url = Some ''https://z'', c_source_title = Some ''C''\<rparr>"

definition question_seuil :: string where
  "question_seuil = ''aaa aaa aaa bbb bbb bbb bbb''"

definition question_au_dessus :: string where
  "question_au_dessus = ''aaa aaa aaa aaa bbb bbb bbb''"

definition question_installer :: string where
  "question_installer = ''installer installer installer''"

definition question_installer_linux :: string where
  "question_installer_linux = ''installer installer installer linux linux linux linux''"

definition texte_long :: string where
  "texte_long = replicate 590 CHR ''a'' @ '' '' @ replicate 59 CHR ''b''"

definition chunk_long :: chunk where
  "chunk_long = \<lparr>c_text = Some texte_long, c_chunk_id = Some 3,
     c_source_url = Some ''https://l'', c_source_title = Some ''L''\<rparr>"

definition texte_saut :: string where
  "texte_saut = replicate 590 CHR ''a'' @ [CHR 0x0A] @ replicate 59 CHR ''b''"

definition chunk_saut :: chunk where
  "chunk_saut = \<lparr>c_text = Some texte_saut, c_chunk_id = Some 4,
     c_source_url = Some ''https://s'', c_source_title = Some ''S''\<rparr>"

definition chunk_espace :: chunk where
  "chunk_espace = \<lparr>c_text = Some ''Linux '', c_chunk_id = Some 5,
     c_source_url = Some ''https://e'', c_source_title = Some ''E''\<rparr>"


definition reponse_long :: reponse_nird where
  "reponse_long = \<lparr>question = ''linux'', contexte = replicate 590 CHR ''a'' @ ''...'',
     confiance = fl (18 / 100), chunk_id = 3, source_url = ''https://l'', source_title = ''L'',
     timestamp = ''t''\<rparr>"

definition reponse_saut :: reponse_nird where
  "reponse_saut = \<lparr>question = ''linux'', contexte = take 600 texte_saut @ ''...'',
     confiance = fl (18 / 100), chunk_id = 4, source_url = ''https://s'', source_title = ''S'',
     timestamp = ''t''\<rparr>"

definition reponse_espace :: reponse_nird where
  "reponse_espace = \<lparr>question = ''linux'', contexte = ''Linux'',
     confiance = fl (118 / 100), chunk_id = 5, source_url = ''https://e'', source_title = ''E'',
     timestamp = ''t''\<rparr>"

definition chunk_sans_texte :: chunk where
  "chunk_sans_texte = \<lparr>c_text = None, c_chunk_id = Some 8,
     c_source_url = Some ''https://n'', c_source_title = Some ''N''\<rparr>"

definition chunk_sans_url :: chunk where
  "chunk_sans_url = \<lparr>c_text = Some ''Linux'', c_chunk_id = Some 9,
     c_source_url = None, c_source_title = None\<rparr>"


definition question_limite :: string where
  "question_limite = ''aaa aaa aaa aaa aaa aaa aaa aaa bbb''"

definition texte_limite :: string where
  "texte_limite = concat (replicate 39 ''bbb '') @ concat (replicate 10 ''xxx '') @ ''yyy yyy''"

definition chunk_limite :: chunk where
  "chunk_limite = \<lparr>c_text = Some texte_limite, c_chunk_id = Some 19,
     c_source_url = Some ''https://v'', c_source_title = Some ''V''\<rparr>"

definition question_arrondi :: string where
  "question_arrondi = ''linux bbb''"

definition chunk_arrondi_1 :: chunk where
  "chunk_arrondi_1 = \<lparr>c_text = Some ''linux xxx'', c_chunk_id = Some 11,
     c_source_url = Some ''https://a1'', c_source_title = Some ''A1''\<rparr>"

definition chunk_arrondi_2 :: chunk where
  "chunk_arrondi_2 = \<lparr>c_text = Some ''linux linux linux xxx xxx xxx'', c_chunk_id = Some 12,
     c_source_url = Some ''https://a2'', c_source_title = Some ''A2''\<rparr>"

definition question_367 :: string where
  "question_367 = ''linux linux linux ppp ppp qqq rrr sss''"

definition chunk_367 :: chunk where
  "chunk_367 = \<lparr>c_text = Some ''linux ttt ttt ttt uuu uuu vvv www'', c_chunk_id = Some 6,
     c_source_url = Some ''https://c'', c_source_title = Some ''D''\<rparr>"

definition vec_trois :: counter where
  "vec_trois = [(''aaa'', 1), (''bbb'', 1), (''ccc'', 1)]"

definition vec_enorme :: counter where
  "vec_enorme = [(''aaa'', 10 ^ 200)]"
section \<open>Rounding to the nearest double\<close>

lemma round_half_even_cases:
  "round_half_even y = \<lfloor>y\<rfloor> \<and> y - of_int \<lfloor>y\<rfloor> \<le> 1 / 2
   \<or> round_half_even y = \<lfloor>y\<rfloor> + 1 \<and> 1 / 2 \<le> y - of_int \<lfloor>y\<rfloor>"
  by (auto simp: round_half_even_def Let_def)

lemma round_half_even_erreur: "\<bar>of_int (round_half_even y) - y\<bar> \<le> 1 / 2"
proof -
  have "of_int \<lfloor>y\<rfloor> \<le> y" "y < of_int \<lfloor>y\<rfloor> + 1" by linarith+
  with round_half_even_cases [of y] show ?thesis by auto
qed

lemma round_half_even_of_int [simp]: "round_half_even (of_int n) = n"
  by (simp add: round_half_even_def)

lemma round_half_even_numeral [simp]: "round_half_even (numeral n) = numeral n"
  using round_half_even_of_int [of "numeral n"] by simp

lemma round_half_even_unique:
  assumes "of_int n - 1 / 2 < y" "y < of_int n + 1 / 2"
  shows "round_half_even y = n"
proof -
  have "\<bar>of_int (round_half_even y) - y\<bar> \<le> 1 / 2" by (rule round_half_even_erreur)
  with assms have "\<bar>real_of_int (round_half_even y) - of_int n\<bar> < 1" by linarith
  then have "\<bar>round_half_even y - n\<bar> < 1"
    by (metis of_int_diff of_int_abs of_int_less_1_iff)
  then show ?thesis by simp
qed

lemma round_half_even_mono:
  assumes "x \<le> y"
  shows "round_half_even x \<le> round_half_even y"
proof -
  from assms have fl: "\<lfloor>x\<rfloor> \<le> \<lfloor>y\<rfloor>" by (rule floor_mono)
  show ?thesis
  proof (cases "\<lfloor>x\<rfloor> = \<lfloor>y\<rfloor>")
    case True
    with assms have "x - of_int \<lfloor>x\<rfloor> \<le> y - of_int \<lfloor>y\<rfloor>" by simp
    with True show ?thesis
      by (auto simp: round_half_even_def Let_def)
  next
    case False
    with fl have "\<lfloor>x\<rfloor> + 1 \<le> \<lfloor>y\<rfloor>" by simp
    moreover have "round_half_even x \<le> \<lfloor>x\<rfloor> + 1"
      using round_half_even_cases [of x] by auto
    moreover have "\<lfloor>y\<rfloor> \<le> round_half_even y"
      using round_half_even_cases [of y] by auto
    ultimately show ?thesis by linarith
  qed
qed

lemma round_half_even_ge: "of_int n \<le> y \<Longrightarrow> n \<le> round_half_even y"
  using round_half_even_mono [of "of_int n" y] by simp

lemma round_half_even_le: "y \<le> of_int n \<Longrightarrow> round_half_even y \<le> n"
  using round_half_even_mono [of y "of_int n"] by simp

lemma ulp_pos: "0 < ulp x"
  by (simp add: ulp_def)

lemma exposant_ge: "- 1022 \<le> exposant x"
  by (simp add: exposant_def)

lemma exposant_haut:
  assumes "x \<noteq> 0"
  shows "\<bar>x\<bar> < 2 powr (of_int (exposant x) + 1)"
proof -
  from assms have pos: "0 < \<bar>x\<bar>" by simp
  have "log 2 \<bar>x\<bar> < of_int \<lfloor>log 2 \<bar>x\<bar>\<rfloor> + 1" by linarith
  also have "\<dots> \<le> of_int (exposant x) + 1" by (simp add: exposant_def)
  finally have "log 2 \<bar>x\<bar> < of_int (exposant x) + 1" .
  then have "2 powr log 2 \<bar>x\<bar> < 2 powr (of_int (exposant x) + 1)" by simp
  with pos show ?thesis by simp
qed

lemma exposant_bas:
  assumes "2 powr (- 1022) \<le> \<bar>x\<bar>"
  shows "2 powr of_int (exposant x) \<le> \<bar>x\<bar>"
proof -
  have pos: "0 < \<bar>x\<bar>" using assms by (smt (verit) powr_gt_zero)
  from assms pos have "- 1022 \<le> log 2 \<bar>x\<bar>" by (simp add: le_log_iff)
  then have "- 1022 \<le> \<lfloor>log 2 \<bar>x\<bar>\<rfloor>" by (simp add: le_floor_iff)
  then have e: "exposant x = \<lfloor>log 2 \<bar>x\<bar>\<rfloor>" by (simp add: exposant_def)
  have "of_int \<lfloor>log 2 \<bar>x\<bar>\<rfloor> \<le> log 2 \<bar>x\<bar>" by linarith
  then have "2 powr of_int \<lfloor>log 2 \<bar>x\<bar>\<rfloor> \<le> 2 powr log 2 \<bar>x\<bar>" by simp
  with pos e show ?thesis by simp
qed

lemma exposant_eq:
  assumes "2 powr of_int k \<le> \<bar>x\<bar>" "\<bar>x\<bar> < 2 powr (of_int k + 1)" "- 1022 \<le> k"
  shows "exposant x = k"
proof -
  have pos: "0 < \<bar>x\<bar>" using assms(1) by (smt (verit) powr_gt_zero)
  have "\<lfloor>log 2 \<bar>x\<bar>\<rfloor> = k"
    using assms(1,2) pos by (subst floor_log_eq_powr_iff) simp_all
  with assms(3) show ?thesis by (simp add: exposant_def)
qed

lemma fl_erreur: "\<bar>fl x - x\<bar> \<le> ulp x / 2"
proof (cases "x = 0")
  case True
  then show ?thesis using ulp_pos [of x] by (simp add: fl_def)
next
  case False
  have "\<bar>of_int (round_half_even (x / ulp x)) - x / ulp x\<bar> \<le> 1 / 2"
    by (rule round_half_even_erreur)
  then have "\<bar>of_int (round_half_even (x / ulp x)) - x / ulp x\<bar> * ulp x \<le> 1 / 2 * ulp x"
    using ulp_pos [of x] by (intro mult_right_mono) simp_all
  moreover have "\<bar>of_int (round_half_even (x / ulp x)) - x / ulp x\<bar> * ulp x
      = \<bar>of_int (round_half_even (x / ulp x)) * ulp x - x\<bar>"
  proof -
    define a where "a = real_of_int (round_half_even (x / ulp x))"
    define u where "u = ulp x"
    have u: "0 < u" unfolding u_def by (rule ulp_pos)
    then have "\<bar>a - x / u\<bar> * u = \<bar>(a - x / u) * u\<bar>" by (simp add: abs_mult)
    also have "(a - x / u) * u = a * u - x" using u by (simp add: field_simps)
    finally show ?thesis unfolding a_def u_def .
  qed
  ultimately show ?thesis using False by (simp add: fl_def)
qed


lemma ulp_normal:
  assumes "2 powr (- 1022) \<le> \<bar>x\<bar>"
  shows "ulp x \<le> \<bar>x\<bar> / 2 ^ 52"
proof -
  have "ulp x = 2 powr of_int (exposant x) / 2 powr 52"
    unfolding ulp_def by (rule powr_diff)
  also have "\<dots> = 2 powr of_int (exposant x) / 2 ^ 52" by simp
  also have "\<dots> \<le> \<bar>x\<bar> / 2 ^ 52"
    using exposant_bas [OF assms] by (simp add: divide_right_mono)
  finally show ?thesis .
qed

lemma fl_relatif:
  assumes "2 powr (- 1022) \<le> \<bar>x\<bar>"
  shows "\<bar>fl x - x\<bar> \<le> \<bar>x\<bar> / 2 ^ 53"
proof -
  have "\<bar>fl x - x\<bar> \<le> ulp x / 2" by (rule fl_erreur)
  also have "\<dots> \<le> (\<bar>x\<bar> / 2 ^ 52) / 2"
    using ulp_normal [OF assms] by simp
  also have "\<dots> = \<bar>x\<bar> / 2 ^ 53" by simp
  finally show ?thesis .
qed

lemma fl_nonneg: "0 \<le> x \<Longrightarrow> 0 \<le> fl x"
proof -
  assume x: "0 \<le> x"
  have "0 \<le> round_half_even (x / ulp x)"
    using x ulp_pos [of x] by (intro round_half_even_ge) simp
  then show ?thesis using ulp_pos [of x] by (simp add: fl_def)
qed

lemma ulp_puissance: "2 ^ 52 * ulp x = 2 powr of_int (exposant x)"
proof -
  have "ulp x = 2 powr of_int (exposant x) / 2 powr 52"
    unfolding ulp_def by (rule powr_diff)
  then show ?thesis by simp
qed

lemma fl_le_puissance:
  assumes "0 < x"
  shows "fl x \<le> 2 powr (of_int (exposant x) + 1)"
proof -
  have u: "0 < ulp x" by (rule ulp_pos)
  have p: "2 powr (of_int (exposant x) + 1) = 2 ^ 53 * ulp x"
    using ulp_puissance [of x] by (simp add: powr_add)
  from exposant_haut [of x] assms have "x < 2 ^ 53 * ulp x" by (simp add: p)
  then have "x / ulp x \<le> of_int (2 ^ 53)" using u by (simp add: field_simps)
  then have "round_half_even (x / ulp x) \<le> 2 ^ 53" by (rule round_half_even_le)
  then have "real_of_int (round_half_even (x / ulp x)) \<le> 2 ^ 53"
    by (metis of_int_le_iff of_int_numeral of_int_power)
  then have "real_of_int (round_half_even (x / ulp x)) * ulp x \<le> 2 ^ 53 * ulp x"
    using u by (intro mult_right_mono) simp_all
  with assms show ?thesis by (simp add: fl_def p)
qed

lemma fl_ge_puissance:
  assumes "0 < x" "2 powr of_int (exposant x) \<le> x"
  shows "2 powr of_int (exposant x) \<le> fl x"
proof -
  have u: "0 < ulp x" by (rule ulp_pos)
  from assms(2) have "2 ^ 52 * ulp x \<le> x" by (simp only: ulp_puissance)
  then have "of_int (2 ^ 52) \<le> x / ulp x" using u by (simp add: field_simps)
  then have "2 ^ 52 \<le> round_half_even (x / ulp x)" by (rule round_half_even_ge)
  then have "2 ^ 52 \<le> real_of_int (round_half_even (x / ulp x))"
    by (metis of_int_le_iff of_int_numeral of_int_power)
  then have "2 ^ 52 * ulp x \<le> real_of_int (round_half_even (x / ulp x)) * ulp x"
    using u by (intro mult_right_mono) simp_all
  then have "2 powr of_int (exposant x) \<le> real_of_int (round_half_even (x / ulp x)) * ulp x"
    by (simp only: ulp_puissance)
  with assms(1) show ?thesis by (simp add: fl_def)
qed

lemma exposant_mono:
  assumes "0 < x" "x \<le> y"
  shows "exposant x \<le> exposant y"
proof -
  from assms have "log 2 x \<le> log 2 y" by simp
  then have "\<lfloor>log 2 x\<rfloor> \<le> \<lfloor>log 2 y\<rfloor>" by (rule floor_mono)
  with assms show ?thesis by (simp add: exposant_def)
qed

lemma fl_mono:
  assumes "0 \<le> x" "x \<le> y"
  shows "fl x \<le> fl y"
proof (cases "x = 0")
  case True
  with assms fl_nonneg [of y] show ?thesis by (simp add: fl_def)
next
  case False
  with assms have x: "0 < x" and y: "0 < y" by simp_all
  from exposant_mono [OF x assms(2)] have e: "exposant x \<le> exposant y" .
  show ?thesis
  proof (cases "exposant x = exposant y")
    case True
    then have u: "ulp x = ulp y" by (simp add: ulp_def)
    have "x / ulp y \<le> y / ulp y"
      using assms(2) ulp_pos [of y] by (simp add: divide_right_mono)
    then have "round_half_even (x / ulp y) \<le> round_half_even (y / ulp y)"
      by (rule round_half_even_mono)
    then have "real_of_int (round_half_even (x / ulp y)) * ulp y
                 \<le> real_of_int (round_half_even (y / ulp y)) * ulp y"
      using ulp_pos [of y] by (intro mult_right_mono) simp_all
    with x y u show ?thesis by (simp add: fl_def)
  next
    case False
    with e have lt: "exposant x + 1 \<le> exposant y" by simp
    then have "- 1022 < exposant y" using exposant_ge [of x] by linarith
    then have "- 1022 < \<lfloor>log 2 \<bar>y\<bar>\<rfloor>" unfolding exposant_def by linarith
    then have "- 1022 \<le> log 2 \<bar>y\<bar>" by linarith
    then have "2 powr (- 1022) \<le> \<bar>y\<bar>" using y by (simp add: le_log_iff)
    from exposant_bas [OF this] y have "2 powr of_int (exposant y) \<le> y" by simp
    from fl_ge_puissance [OF y this] have "2 powr of_int (exposant y) \<le> fl y" .
    moreover have "fl x \<le> 2 powr (of_int (exposant x) + 1)" by (rule fl_le_puissance [OF x])
    moreover have "(2::real) powr (of_int (exposant x) + 1) \<le> 2 powr of_int (exposant y)"
    proof -
      from lt have "real_of_int (exposant x) + 1 \<le> of_int (exposant y)"
        by (metis of_int_1 of_int_add of_int_le_iff)
      then show ?thesis by simp
    qed
    ultimately show ?thesis by linarith
  qed
qed

lemma fl_eval:
  assumes "2 ^ 52 \<le> x * 2 ^ m" "x * 2 ^ m < 2 ^ 53" "m \<le> 1074"
  shows "fl x = of_int (round_half_even (x * 2 ^ m)) / 2 ^ m"
proof -
  have x: "0 < x"
  proof (rule ccontr)
    assume "\<not> 0 < x"
    then have "x * 2 ^ m \<le> 0" by (simp add: mult_le_0_iff)
    with assms(1) show False by (smt (verit) zero_less_power)
  qed
  define k :: int where "k = 52 - int m"
  have pk: "2 powr real_of_int k = 2 ^ 52 / 2 ^ m"
  proof -
    have "2 powr real_of_int k = 2 powr (52 - real m)" by (simp add: k_def)
    also have "\<dots> = 2 powr 52 / 2 powr real m" by (rule powr_diff)
    also have "\<dots> = 2 ^ 52 / 2 ^ m" by (simp add: powr_realpow)
    finally show ?thesis .
  qed
  have pk1: "2 powr (real_of_int k + 1) = 2 ^ 53 / 2 ^ m"
    by (simp add: powr_add pk)
  have "2 ^ 52 / 2 ^ m \<le> \<bar>x\<bar>"
    using assms(1) x by (simp add: field_simps)
  then have "2 powr of_int k \<le> \<bar>x\<bar>" by (simp only: pk)
  moreover have "\<bar>x\<bar> < 2 ^ 53 / 2 ^ m"
    using assms(2) x by (simp add: field_simps)
  then have "\<bar>x\<bar> < 2 powr (of_int k + 1)" by (simp only: pk1)
  moreover have "- 1022 \<le> k" using assms(3) by (simp add: k_def)
  ultimately have "exposant x = k" by (rule exposant_eq)
  then have "ulp x = 2 powr (- real m)" by (simp add: ulp_def k_def)
  also have "\<dots> = 1 / 2 ^ m" by (simp add: powr_minus_divide powr_realpow)
  finally have u: "ulp x = 1 / 2 ^ m" .
  from x show ?thesis by (simp add: fl_def u)
qed

lemma fl_sqrt_eval:
  assumes "(2 ^ 52)\<^sup>2 \<le> a * 4 ^ m" "a * 4 ^ m < (2 ^ 53)\<^sup>2" "m \<le> 1074"
    and "(2 * of_int n - 1)\<^sup>2 < 4 * (a * 4 ^ m)" "4 * (a * 4 ^ m) < (2 * of_int n + 1)\<^sup>2"
    and "0 < n"
  shows "fl (sqrt a) = of_int n / 2 ^ m"
proof -
  have r: "sqrt a * 2 ^ m = sqrt (a * 4 ^ m)"
  proof -
    have "sqrt (a * 4 ^ m) = sqrt a * sqrt (4 ^ m)" by (rule real_sqrt_mult)
    also have "sqrt (4 ^ m) = sqrt ((2 ^ m)\<^sup>2)"
      by (simp add: power_mult [symmetric] power2_eq_square power_mult_distrib [symmetric])
    also have "\<dots> = 2 ^ m" by simp
    finally show ?thesis by simp
  qed
  have b1: "2 ^ 52 \<le> sqrt a * 2 ^ m"
    unfolding r using assms(1) by (rule real_le_rsqrt)
  have b2: "sqrt a * 2 ^ m < 2 ^ 53"
    unfolding r using assms(2) by (intro real_less_lsqrt) simp_all
  have "2 * sqrt (a * 4 ^ m) = sqrt (4 * (a * 4 ^ m))"
    by (simp add: real_sqrt_mult)
  have lo: "2 * of_int n - 1 < 2 * sqrt (a * 4 ^ m)"
  proof -
    have "2 * of_int n - 1 < sqrt (4 * (a * 4 ^ m))"
      using assms(4) by (rule real_less_rsqrt)
    then show ?thesis by (simp add: real_sqrt_mult)
  qed
  have hi: "2 * sqrt (a * 4 ^ m) < 2 * of_int n + 1"
  proof -
    have "sqrt (4 * (a * 4 ^ m)) < 2 * of_int n + 1"
      using assms(5,6) by (intro real_less_lsqrt) simp_all
    then show ?thesis by (simp add: real_sqrt_mult)
  qed
  have "round_half_even (sqrt a * 2 ^ m) = n"
    unfolding r using lo hi by (intro round_half_even_unique) simp_all
  with fl_eval [OF b1 b2 assms(3)] show ?thesis by simp
qed

lemma fl_un: "fl 1 = 1"
  using fl_eval [of 1 52] by simp

section \<open>The scoring loop\<close>

lemma vecteurs_chunks_length:
  "vecteurs_chunks chunks = Inr vecs \<Longrightarrow> length vecs = length chunks"
  by (induction chunks arbitrary: vecs) (auto split: option.splits sum.splits)

lemma vecteurs_chunks_nth:
  "vecteurs_chunks chunks = Inr vecs \<Longrightarrow> i < length chunks \<Longrightarrow>
     \<exists>t. c_text (chunks ! i) = Some t \<and> vecs ! i = nettoyer_et_vectoriser t"
proof (induction chunks arbitrary: vecs i)
  case Nil
  then show ?case by simp
next
  case (Cons c cs)
  then show ?case
    by (cases i) (auto split: option.splits sum.splits)
qed

lemma vecteurs_chunks_eq:
  "vecteurs_chunks chunks =
     (if \<forall>c \<in> set chunks. c_text c \<noteq> None
      then Inr (map (\<lambda>c. nettoyer_et_vectoriser (the (c_text c))) chunks)
      else Inl (KeyError ''text''))"
proof (induction chunks)
  case Nil
  then show ?case by simp
next
  case (Cons c cs)
  show ?case
  proof (cases "c_text c")
    case None
    then show ?thesis by simp
  next
    case (Some t)
    with Cons.IH show ?thesis by simp
  qed
qed

text \<open>A loop that ends has computed the score of every entry.\<close>

lemma boucle_scores:
  "boucle q vq chunks i vecs st = Inr st' \<Longrightarrow>
   \<forall>v \<in> set vecs. \<exists>s. score_chunk q vq v = Inr s"
proof (induction vecs arbitrary: i st)
  case Nil
  then show ?case by simp
next
  case (Cons v vecs)
  obtain ms mc where st: "st = (ms, mc)" by (cases st)
  from Cons.prems obtain s where s: "score_chunk q vq v = Inr s"
    by (cases "score_chunk q vq v") (auto simp: st)
  from Cons.prems s have "\<exists>i' st1. boucle q vq chunks i' vecs st1 = Inr st'"
    by (auto simp: st split: if_splits)
  with Cons.IH s show ?case by auto
qed

lemma boucle_erreur:
  "boucle q vq chunks i vecs st = Inl e \<Longrightarrow> i + length vecs \<le> length chunks \<Longrightarrow>
   \<exists>v \<in> set vecs. score_chunk q vq v = Inl e"
proof (induction vecs arbitrary: i st)
  case Nil
  then show ?case by simp
next
  case (Cons v vecs)
  obtain ms mc where st: "st = (ms, mc)" by (cases st)
  from Cons.prems(2) have len: "Suc i + length vecs \<le> length chunks" "i < length chunks"
    by simp_all
  show ?case
  proof (cases "score_chunk q vq v")
    case (Inl e')
    with Cons.prems(1) show ?thesis by (simp add: st)
  next
    case (Inr s)
    with Cons.prems(1) len(2) have "\<exists>st1. boucle q vq chunks (Suc i) vecs st1 = Inl e"
      by (auto simp: st split: if_splits)
    then obtain st1 where "boucle q vq chunks (Suc i) vecs st1 = Inl e" ..
    from Cons.IH [OF this len(1)] show ?thesis by auto
  qed
qed

lemma boucle_total:
  "i + length vecs \<le> length chunks \<Longrightarrow> \<forall>v \<in> set vecs. \<exists>s. score_chunk q vq v = Inr s \<Longrightarrow>
   \<exists>st. boucle q vq chunks i vecs st0 = Inr st"
proof -
  assume len: "i + length vecs \<le> length chunks"
    and sc: "\<forall>v \<in> set vecs. \<exists>s. score_chunk q vq v = Inr s"
  show ?thesis
  proof (cases "boucle q vq chunks i vecs st0")
    case (Inl e)
    from boucle_erreur [OF Inl len] sc show ?thesis by auto
  next
    case (Inr st)
    then show ?thesis by blast
  qed
qed

lemma boucle_keep:
  "boucle q vq chunks i vecs (ms, mc) = Inr st \<Longrightarrow>
   \<forall>v \<in> set vecs. \<forall>s. score_chunk q vq v = Inr s \<longrightarrow> s \<le> ms \<Longrightarrow> st = (ms, mc)"
proof (induction vecs arbitrary: i)
  case Nil
  then show ?case by simp
next
  case (Cons v vecs)
  from Cons.prems(1) obtain s where s: "score_chunk q vq v = Inr s"
    by (cases "score_chunk q vq v") auto
  with Cons.prems(2) have "s \<le> ms" by simp
  with Cons.prems(1) s have "boucle q vq chunks (Suc i) vecs (ms, mc) = Inr st" by simp
  with Cons.IH Cons.prems(2) show ?case by simp
qed

lemma boucle_inchange:
  "\<forall>v \<in> set vecs. \<exists>s. score_chunk q vq v = Inr s \<and> s \<le> ms \<Longrightarrow>
   boucle q vq chunks i vecs (ms, mc) = Inr (ms, mc)"
  by (induction vecs arbitrary: i) auto

lemma boucle_win:
  "boucle q vq chunks i vecs (ms, mc) = Inr (ms', mc') \<Longrightarrow>
   \<exists>v \<in> set vecs. \<exists>s. score_chunk q vq v = Inr s \<and> ms < s \<Longrightarrow>
   \<exists>k < length vecs. mc' = Some (chunks ! (i + k)) \<and> i + k < length chunks
      \<and> score_chunk q vq (vecs ! k) = Inr ms' \<and> ms < ms'
      \<and> (\<forall>j < k. \<exists>s. score_chunk q vq (vecs ! j) = Inr s \<and> s < ms')
      \<and> (\<forall>j < length vecs. \<exists>s. score_chunk q vq (vecs ! j) = Inr s \<and> s \<le> ms')"
proof (induction vecs arbitrary: i ms mc)
  case Nil
  then show ?case by simp
next
  case (Cons v vecs)
  from Cons.prems(1) obtain s where s: "score_chunk q vq v = Inr s"
    by (cases "score_chunk q vq v") auto
  show ?case
  proof (cases "ms < s")
    case True
    with Cons.prems(1) s have i: "i < length chunks"
      and run: "boucle q vq chunks (Suc i) vecs (s, Some (chunks ! i)) = Inr (ms', mc')"
      by (auto split: if_splits)
    show ?thesis
    proof (cases "\<exists>w \<in> set vecs. \<exists>s'. score_chunk q vq w = Inr s' \<and> s < s'")
      case plus: True
      from Cons.IH [OF run plus] obtain k where k: "k < length vecs"
        "mc' = Some (chunks ! (Suc i + k))" "Suc i + k < length chunks"
        "score_chunk q vq (vecs ! k) = Inr ms'" "s < ms'"
        "\<forall>j < k. \<exists>s. score_chunk q vq (vecs ! j) = Inr s \<and> s < ms'"
        "\<forall>j < length vecs. \<exists>s. score_chunk q vq (vecs ! j) = Inr s \<and> s \<le> ms'"
        by blast
      have "\<forall>j < Suc k. \<exists>s. score_chunk q vq ((v # vecs) ! j) = Inr s \<and> s < ms'"
        using k(5,6) s by (auto simp: less_Suc_eq_0_disj)
      moreover have "\<forall>j < length (v # vecs). \<exists>s. score_chunk q vq ((v # vecs) ! j) = Inr s \<and> s \<le> ms'"
        using k(5,7) s by (auto simp: less_Suc_eq_0_disj)
      ultimately show ?thesis
        using k(1-5) True by (intro exI [of _ "Suc k"]) auto
    next
      case False
      then have "\<forall>w \<in> set vecs. \<forall>s'. score_chunk q vq w = Inr s' \<longrightarrow> s' \<le> s" by auto
      from boucle_keep [OF run this] have st: "ms' = s" "mc' = Some (chunks ! i)" by simp_all
      from boucle_scores [OF run] have all: "\<forall>w \<in> set vecs. \<exists>s'. score_chunk q vq w = Inr s'" .
      have "\<exists>s'. score_chunk q vq (vecs ! j) = Inr s' \<and> s' \<le> s" if "j < length vecs" for j
      proof -
        from that have m: "vecs ! j \<in> set vecs" by simp
        with all obtain s' where "score_chunk q vq (vecs ! j) = Inr s'" by blast
        with False m show ?thesis by (auto simp: not_less)
      qed
      then have "\<forall>j < length (v # vecs). \<exists>s'. score_chunk q vq ((v # vecs) ! j) = Inr s' \<and> s' \<le> ms'"
        using st s by (auto simp: less_Suc_eq_0_disj)
      then show ?thesis
        using st i s True by (intro exI [of _ 0]) auto
    qed
  next
    case False
    with Cons.prems(1) s have run: "boucle q vq chunks (Suc i) vecs (ms, mc) = Inr (ms', mc')"
      by (auto split: if_splits)
    from Cons.prems(2) False s
    have ex: "\<exists>w \<in> set vecs. \<exists>s'. score_chunk q vq w = Inr s' \<and> ms < s'" by auto
    from Cons.IH [OF run ex] obtain k where k: "k < length vecs"
      "mc' = Some (chunks ! (Suc i + k))" "Suc i + k < length chunks"
      "score_chunk q vq (vecs ! k) = Inr ms'" "ms < ms'"
      "\<forall>j < k. \<exists>s. score_chunk q vq (vecs ! j) = Inr s \<and> s < ms'"
      "\<forall>j < length vecs. \<exists>s. score_chunk q vq (vecs ! j) = Inr s \<and> s \<le> ms'"
      by blast
    have "\<forall>j < Suc k. \<exists>s. score_chunk q vq ((v # vecs) ! j) = Inr s \<and> s < ms'"
      using k(5,6) False s by (auto simp: less_Suc_eq_0_disj)
    moreover have "\<forall>j < length (v # vecs). \<exists>s. score_chunk q vq ((v # vecs) ! j) = Inr s \<and> s \<le> ms'"
      using k(5,7) False s by (auto simp: less_Suc_eq_0_disj)
    ultimately show ?thesis
      using k(1-5) by (intro exI [of _ "Suc k"]) auto
  qed
qed

lemma boucle_resultat:
  assumes "vecteurs_chunks chunks = Inr vecteurs"
    and "boucle q vq chunks 0 vecteurs (0, None) = Inr (ms, mc)"
  shows "(\<forall>j < length chunks. \<exists>s. score_chunk q vq (vecteurs ! j) = Inr s \<and> s \<le> ms)
         \<and> (ms = 0 \<and> mc = None
              \<or> 0 < ms \<and> (\<exists>k < length chunks. mc = Some (chunks ! k)
                    \<and> score_chunk q vq (vecteurs ! k) = Inr ms
                    \<and> (\<forall>j < k. \<exists>s. score_chunk q vq (vecteurs ! j) = Inr s \<and> s < ms)))"
proof -
  have len: "length vecteurs = length chunks"
    using assms(1) by (rule vecteurs_chunks_length)
  note run = assms(2)
  from boucle_scores [OF run] have all: "\<forall>v \<in> set vecteurs. \<exists>s. score_chunk q vq v = Inr s" .
  show ?thesis
  proof (cases "\<exists>v \<in> set vecteurs. \<exists>s. score_chunk q vq v = Inr s \<and> 0 < s")
    case True
    from boucle_win [OF run True] obtain k where k: "k < length vecteurs"
      "mc = Some (chunks ! (0 + k))" "score_chunk q vq (vecteurs ! k) = Inr ms" "0 < ms"
      "\<forall>j < k. \<exists>s. score_chunk q vq (vecteurs ! j) = Inr s \<and> s < ms"
      "\<forall>j < length vecteurs. \<exists>s. score_chunk q vq (vecteurs ! j) = Inr s \<and> s \<le> ms"
      by blast
    then show ?thesis using len by auto
  next
    case False
    then have le: "\<forall>v \<in> set vecteurs. \<forall>s. score_chunk q vq v = Inr s \<longrightarrow> s \<le> 0"
      by (auto simp: not_less)
    from boucle_keep [OF run le] have st: "ms = 0" "mc = None" by simp_all
    have "\<exists>s. score_chunk q vq (vecteurs ! j) = Inr s \<and> s \<le> 0" if "j < length chunks" for j
    proof -
      from that len have m: "vecteurs ! j \<in> set vecteurs" by simp
      with all obtain s where "score_chunk q vq (vecteurs ! j) = Inr s" by blast
      with le m show ?thesis by auto
    qed
    with st show ?thesis by simp
  qed
qed

section \<open>Cosine similarity\<close>

text \<open>The Cauchy-Schwarz inequality for finite sums, by induction on the index set.\<close>

lemma four_mult_le_square_sum:
  fixes p q :: real
  shows "4 * p * q \<le> (p + q)\<^sup>2"
proof -
  have "0 \<le> (p - q)\<^sup>2" by simp
  also have "(p - q)\<^sup>2 = (p + q)\<^sup>2 - 4 * p * q"
    by (simp add: power2_sum power2_diff)
  finally show ?thesis by simp
qed

lemma cs_step:
  fixes A X Y a b :: real
  assumes "A\<^sup>2 \<le> X * Y" "0 \<le> X" "0 \<le> Y"
  shows "(A + a * b)\<^sup>2 \<le> (X + a\<^sup>2) * (Y + b\<^sup>2)"
proof -
  let ?p = "X * b\<^sup>2" and ?q = "Y * a\<^sup>2"
  have pq: "0 \<le> ?p + ?q" using assms by simp
  have "(2 * A * (a * b))\<^sup>2 = 4 * A\<^sup>2 * (a\<^sup>2 * b\<^sup>2)"
    by (simp add: power_mult_distrib)
  also have "\<dots> \<le> 4 * (X * Y) * (a\<^sup>2 * b\<^sup>2)"
    using assms(1) by (intro mult_right_mono mult_left_mono) simp_all
  also have "\<dots> = 4 * ?p * ?q" by simp
  also have "\<dots> \<le> (?p + ?q)\<^sup>2" by (rule four_mult_le_square_sum)
  finally have "(2 * A * (a * b))\<^sup>2 \<le> (?p + ?q)\<^sup>2" .
  then have mid: "2 * A * (a * b) \<le> ?p + ?q"
    using pq by (rule power2_le_imp_le)
  have "(A + a * b)\<^sup>2 = A\<^sup>2 + 2 * A * (a * b) + a\<^sup>2 * b\<^sup>2"
    by (simp add: power2_sum power_mult_distrib)
  also have "\<dots> \<le> X * Y + (?p + ?q) + a\<^sup>2 * b\<^sup>2"
    using assms(1) mid by simp
  also have "\<dots> = (X + a\<^sup>2) * (Y + b\<^sup>2)"
    by (simp add: distrib_left distrib_right mult.commute)
  finally show ?thesis .
qed

lemma cauchy_schwarz_sum:
  fixes f g :: "'a \<Rightarrow> real"
  assumes "finite S"
  shows "(\<Sum>i\<in>S. f i * g i)\<^sup>2 \<le> (\<Sum>i\<in>S. (f i)\<^sup>2) * (\<Sum>i\<in>S. (g i)\<^sup>2)"
  using assms
proof (induction S rule: finite_induct)
  case empty
  then show ?case by simp
next
  case (insert x F)
  have "((\<Sum>i\<in>F. f i * g i) + f x * g x)\<^sup>2
          \<le> ((\<Sum>i\<in>F. (f i)\<^sup>2) + (f x)\<^sup>2) * ((\<Sum>i\<in>F. (g i)\<^sup>2) + (g x)\<^sup>2)"
    by (rule cs_step [OF insert.IH]) (simp_all add: sum_nonneg)
  then show ?case
    using insert.hyps by (simp add: add.commute)
qed

lemma counter_get_distinct:
  "distinct (map fst vec) \<Longrightarrow> (w, n) \<in> set vec \<Longrightarrow> counter_get vec w = n"
  by (simp add: counter_get_def)

lemma counter_get_absent:
  "w \<notin> set (map fst vec) \<Longrightarrow> counter_get vec w = 0"
  by (simp add: counter_get_def map_of_eq_None_iff [THEN iffD2])

lemma sum_carres_valeurs:
  assumes "distinct (map fst vec)"
  shows "sum_list (map (\<lambda>v. v * v) (map snd vec)) = (\<Sum>w \<in> set (map fst vec). (counter_get vec w)\<^sup>2)"
proof -
  have "snd x * snd x = (counter_get vec (fst x))\<^sup>2" if "x \<in> set vec" for x
    using counter_get_distinct [OF assms, of "fst x" "snd x"] that
    by (simp add: power2_eq_square)
  then have "map (\<lambda>v. v * v) (map snd vec) = map (\<lambda>w. (counter_get vec w)\<^sup>2) (map fst vec)"
    by simp
  then have "sum_list (map (\<lambda>v. v * v) (map snd vec))
               = sum_list (map (\<lambda>w. (counter_get vec w)\<^sup>2) (map fst vec))"
    by (simp only:)
  also have "\<dots> = (\<Sum>w \<in> set (map fst vec). (counter_get vec w)\<^sup>2)"
    using assms by (rule sum_list_distinct_conv_sum_set)
  finally show ?thesis .
qed

lemma sum_communs:
  "sum_list (map f (filter (\<lambda>w. w \<in> set ks2) (remdups ks1))) = sum f (set ks1 \<inter> set ks2)"
proof -
  have "distinct (filter (\<lambda>w. w \<in> set ks2) (remdups ks1))" by simp
  then have "sum_list (map f (filter (\<lambda>w. w \<in> set ks2) (remdups ks1)))
               = sum f (set (filter (\<lambda>w. w \<in> set ks2) (remdups ks1)))"
    by (rule sum_list_distinct_conv_sum_set)
  moreover have "set (filter (\<lambda>w. w \<in> set ks2) (remdups ks1)) = set ks1 \<inter> set ks2"
    by auto
  ultimately show ?thesis by simp
qed

lemma communs_vide:
  "filter (\<lambda>w. w \<in> set ks2) (remdups ks1) = [] \<longleftrightarrow> set ks1 \<inter> set ks2 = {}"
  by (auto simp: filter_empty_conv)

lemma num_le_den:
  fixes a b :: "'a \<Rightarrow> int"
  assumes "finite A" "finite B"
  shows "real_of_int (\<Sum>w \<in> A \<inter> B. a w * b w)
           \<le> sqrt (of_int (\<Sum>w \<in> A. (a w)\<^sup>2)) * sqrt (of_int (\<Sum>w \<in> B. (b w)\<^sup>2))"
proof -
  let ?f = "\<lambda>w. real_of_int (a w)" and ?g = "\<lambda>w. real_of_int (b w)"
  let ?num = "\<Sum>w \<in> A \<inter> B. ?f w * ?g w"
  have fin: "finite (A \<inter> B)" using assms by simp
  have "?num\<^sup>2 \<le> (\<Sum>w \<in> A \<inter> B. (?f w)\<^sup>2) * (\<Sum>w \<in> A \<inter> B. (?g w)\<^sup>2)"
    using fin by (rule cauchy_schwarz_sum)
  also have "\<dots> \<le> (\<Sum>w \<in> A. (?f w)\<^sup>2) * (\<Sum>w \<in> B. (?g w)\<^sup>2)"
    using assms by (intro mult_mono sum_mono2 sum_nonneg) auto
  finally have "?num\<^sup>2 \<le> (\<Sum>w \<in> A. (?f w)\<^sup>2) * (\<Sum>w \<in> B. (?g w)\<^sup>2)" .
  then have "?num \<le> sqrt ((\<Sum>w \<in> A. (?f w)\<^sup>2) * (\<Sum>w \<in> B. (?g w)\<^sup>2))"
    by (rule real_le_rsqrt)
  then have "?num \<le> sqrt (\<Sum>w \<in> A. (?f w)\<^sup>2) * sqrt (\<Sum>w \<in> B. (?g w)\<^sup>2)"
    by (simp only: real_sqrt_mult)
  then show ?thesis by simp
qed

lemma counter_get_nonneg:
  "\<forall>(w, n) \<in> set vec. 0 \<le> n \<Longrightarrow> 0 \<le> counter_get vec w"
  by (auto simp: counter_get_def split: option.splits dest: map_of_SomeD)


lemma fl_majoration:
  assumes "0 \<le> x"
  shows "fl x \<le> x * (1 + 1 / 2 ^ 53) + 1 / 2 ^ 1075"
proof (cases "2 powr (- 1022) \<le> \<bar>x\<bar>")
  case True
  define d where "d = x / 2 ^ 53"
  from fl_relatif [OF True] assms have "\<bar>fl x - x\<bar> \<le> d" by (simp only: d_def abs_of_nonneg)
  then have "fl x \<le> x + d" by linarith
  moreover have "x * (1 + 1 / 2 ^ 53) = x + d" by (simp add: d_def algebra_simps)
  ultimately show ?thesis by simp
next
  case False
  show ?thesis
  proof (cases "x = 0")
    case True
    then show ?thesis by (simp add: fl_def)
  next
    case nz: False
    with assms have pos: "0 < \<bar>x\<bar>" by simp
    from False have "\<bar>x\<bar> < 2 powr (- 1022)" by simp
    with pos have "log 2 \<bar>x\<bar> < - 1022" by (simp add: log_less_iff)
    then have "\<lfloor>log 2 \<bar>x\<bar>\<rfloor> < - 1022" by (simp add: floor_less_iff)
    then have "exposant x = - 1022" by (simp add: exposant_def)
    then have "ulp x = 2 powr (- 1074)" by (simp add: ulp_def)
    also have "\<dots> = 1 / 2 ^ 1074" by (simp add: powr_minus_divide)
    finally have u: "ulp x / 2 = 1 / 2 ^ 1075" by simp
    from fl_erreur [of x] u have "fl x \<le> x + 1 / 2 ^ 1075" by linarith
    moreover have "x \<le> x * (1 + 1 / 2 ^ 53)" using assms by (simp add: algebra_simps)
    ultimately show ?thesis by linarith
  qed
qed

lemma fl_minoration:
  assumes "1 \<le> x"
  shows "x * (1 - 1 / 2 ^ 53) \<le> fl x" "1 \<le> fl x"
proof -
  have "2 powr (- 1022) \<le> (1::real)" by (simp add: powr_minus_divide)
  with assms have "2 powr (- 1022) \<le> \<bar>x\<bar>" by simp
  define d where "d = x / 2 ^ 53"
  have "\<bar>x\<bar> = x" using assms by simp
  with fl_relatif [OF \<open>2 powr (- 1022) \<le> \<bar>x\<bar>\<close>] have "\<bar>fl x - x\<bar> \<le> d"
    by (simp only: d_def)
  then have "x - d \<le> fl x" by linarith
  moreover have "x * (1 - 1 / 2 ^ 53) = x - d" by (simp add: d_def algebra_simps)
  ultimately show "x * (1 - 1 / 2 ^ 53) \<le> fl x" by simp
  from fl_mono [of 1 x] assms show "1 \<le> fl x" by (simp add: fl_un)
qed


lemma float_of_int_Inr:
  "float_of_int n = Inr x \<longleftrightarrow> \<not> deborde (of_int n) \<and> x = fl (of_int n)"
  by (auto simp: float_of_int_def)

lemma cosine_similarity_formule:
  assumes "distinct (map fst vec1)" "distinct (map fst vec2)"
  shows "cosine_similarity vec1 vec2 =
     (if set (map fst vec1) \<inter> set (map fst vec2) = {} then Inr 0
      else
        case float_of_int (\<Sum>w \<in> set (map fst vec1). (counter_get vec1 w)\<^sup>2) of
          Inl e \<Rightarrow> Inl e
        | Inr s1 \<Rightarrow>
           (case float_of_int (\<Sum>w \<in> set (map fst vec2). (counter_get vec2 w)\<^sup>2) of
              Inl e \<Rightarrow> Inl e
            | Inr s2 \<Rightarrow>
               (if deborde (fl (sqrt s1) * fl (sqrt s2))
                then (case float_of_int (\<Sum>w \<in> set (map fst vec1) \<inter> set (map fst vec2).
                                           counter_get vec1 w * counter_get vec2 w) of
                        Inl e \<Rightarrow> Inl e | Inr n \<Rightarrow> Inr 0)
                else if fl (fl (sqrt s1) * fl (sqrt s2)) \<noteq> 0
                then (case float_of_int (\<Sum>w \<in> set (map fst vec1) \<inter> set (map fst vec2).
                                           counter_get vec1 w * counter_get vec2 w) of
                        Inl e \<Rightarrow> Inl e
                      | Inr n \<Rightarrow> Inr (fl (n / fl (fl (sqrt s1) * fl (sqrt s2)))))
                else Inr 0)))"
  unfolding cosine_similarity_def Let_def communs_vide sum_communs
    sum_carres_valeurs [OF assms(1)] sum_carres_valeurs [OF assms(2)]
  by (rule refl)

lemma cosine_similarity_cas:
  assumes "cosine_similarity vec1 vec2 = Inr r"
  shows "r = 0
     \<or> (\<exists>s1 s2 n. float_of_int (sum_list (map (\<lambda>v. v * v) (map snd vec1))) = Inr s1
          \<and> float_of_int (sum_list (map (\<lambda>v. v * v) (map snd vec2))) = Inr s2
          \<and> float_of_int (sum_list (map (\<lambda>w. counter_get vec1 w * counter_get vec2 w)
                (filter (\<lambda>w. w \<in> set (map fst vec2)) (remdups (map fst vec1))))) = Inr n
          \<and> fl (fl (sqrt s1) * fl (sqrt s2)) \<noteq> 0
          \<and> r = fl (n / fl (fl (sqrt s1) * fl (sqrt s2))))"
  using assms unfolding cosine_similarity_def Let_def
  by (auto split: if_splits sum.splits)

lemma numerique_borne:
  "(1 + 1 / 2 ^ 53) / (1 - 1 / 2 ^ 53) ^ 5 * (1 + 1 / 2 ^ 53) + 1 / 2 ^ 1075
     \<le> (1 + 1 / 2 ^ 50 :: real)"
proof -
  have a: "(1 - 1 / 2 ^ 53 :: real) = 9007199254740991 / 2 ^ 53" by simp
  have b: "(1 + 1 / 2 ^ 53 :: real) = 9007199254740993 / 2 ^ 53" by simp
  have c: "(1 + 1 / 2 ^ 50 :: real) = 1125899906842625 / 2 ^ 50" by simp
  show ?thesis
    unfolding a b c by (simp add: power_divide divide_simps)
qed

lemma fl_majoration_normal:
  assumes "1 \<le> x"
  shows "fl x \<le> x * (1 + 1 / 2 ^ 53)"
proof -
  have "2 powr (- 1022) \<le> (1::real)" by (simp add: powr_minus_divide)
  with assms have n: "2 powr (- 1022) \<le> \<bar>x\<bar>" by simp
  define d where "d = x / 2 ^ 53"
  have "\<bar>x\<bar> = x" using assms by simp
  with fl_relatif [OF n] have "\<bar>fl x - x\<bar> \<le> d" by (simp only: d_def)
  then have "fl x \<le> x + d" by linarith
  moreover have "x * (1 + 1 / 2 ^ 53) = x + d" by (simp add: d_def algebra_simps)
  ultimately show ?thesis by simp
qed

lemma fl_sqrt_minoration:
  fixes S :: real
  assumes "1 \<le> S"
  shows "sqrt S * (1 - 1 / 2 ^ 53) ^ 2 \<le> fl (sqrt (fl S))" "1 \<le> fl (sqrt (fl S))"
proof -
  define e :: real where "e = 1 - 1 / 2 ^ 53"
  have e: "0 < e" "e \<le> 1" by (simp_all add: e_def)
  from fl_minoration [OF assms] have s: "S * e \<le> fl S" "1 \<le> fl S" by (simp_all add: e_def)
  then have r1: "1 \<le> sqrt (fl S)" by simp
  have "e\<^sup>2 \<le> e" using e by (simp add: power2_eq_square mult_left_le)
  then have "e \<le> sqrt e" by (rule real_le_rsqrt)
  then have "sqrt S * e \<le> sqrt S * sqrt e"
    using assms by (intro mult_left_mono) simp_all
  also have "\<dots> = sqrt (S * e)" by (simp add: real_sqrt_mult)
  also have "\<dots> \<le> sqrt (fl S)" using s(1) by simp
  finally have "sqrt S * e \<le> sqrt (fl S)" .
  then have "sqrt S * e * e \<le> sqrt (fl S) * e"
    using e by (intro mult_right_mono) simp_all
  also have "\<dots> \<le> fl (sqrt (fl S))"
    using fl_minoration(1) [OF r1] by (simp add: e_def)
  finally show "sqrt S * (1 - 1 / 2 ^ 53) ^ 2 \<le> fl (sqrt (fl S))"
    by (simp add: e_def power2_eq_square mult.assoc)
  show "1 \<le> fl (sqrt (fl S))" by (rule fl_minoration(2) [OF r1])
qed

lemma quotient_borne:
  fixes n den N D e :: real
  assumes "0 \<le> n" "n \<le> N * (1 + e)" "N \<le> D" "0 < D" "D * (1 - e) ^ 5 \<le> den"
    and "0 < e" "e < 1"
  shows "n / den \<le> (1 + e) / (1 - e) ^ 5"
proof -
  have p: "0 < (1 - e) ^ 5" using assms(7) by simp
  then have dp: "0 < D * (1 - e) ^ 5" using assms(4) by simp
  have "n / den \<le> (N * (1 + e)) / (D * (1 - e) ^ 5)"
    using assms(1,2,5) dp by (intro frac_le) simp_all
  also have "\<dots> \<le> (D * (1 + e)) / (D * (1 - e) ^ 5)"
    using assms(3,6) dp by (intro divide_right_mono mult_right_mono) simp_all
  also have "\<dots> = (1 + e) / (1 - e) ^ 5" using assms(4) by simp
  finally show ?thesis .
qed

lemma cosine_similarity_bornes:
  assumes r: "cosine_similarity vec1 vec2 = Inr r"
    and d: "distinct (map fst vec1)" "distinct (map fst vec2)"
    and nn: "\<forall>(w, n) \<in> set vec1. 0 \<le> n" "\<forall>(w, n) \<in> set vec2. 0 \<le> n"
  shows "0 \<le> r" "r \<le> 1 + 1 / 2 ^ 50"
proof -
  define S1 where "S1 = sum_list (map (\<lambda>v. v * v) (map snd vec1))"
  define S2 where "S2 = sum_list (map (\<lambda>v. v * v) (map snd vec2))"
  define N where "N = sum_list (map (\<lambda>w. counter_get vec1 w * counter_get vec2 w)
                (filter (\<lambda>w. w \<in> set (map fst vec2)) (remdups (map fst vec1))))"
  define e :: real where "e = 1 / 2 ^ 53"
  have e: "0 < e" "e < 1" by (simp_all add: e_def)
  have S1: "0 \<le> S1" unfolding S1_def by (intro sum_list_nonneg) auto
  have S2: "0 \<le> S2" unfolding S2_def by (intro sum_list_nonneg) auto
  have "0 \<le> counter_get vec1 w * counter_get vec2 w" for w
    using counter_get_nonneg [OF nn(1)] counter_get_nonneg [OF nn(2)] by simp
  then have N: "0 \<le> N" unfolding N_def by (intro sum_list_nonneg) auto
  have both: "0 \<le> r \<and> r \<le> 1 + 1 / 2 ^ 50"
    using cosine_similarity_cas [OF r]
  proof
    assume "r = 0"
    then show ?thesis by simp
  next
    assume "\<exists>s1 s2 n. float_of_int (sum_list (map (\<lambda>v. v * v) (map snd vec1))) = Inr s1
          \<and> float_of_int (sum_list (map (\<lambda>v. v * v) (map snd vec2))) = Inr s2
          \<and> float_of_int (sum_list (map (\<lambda>w. counter_get vec1 w * counter_get vec2 w)
                (filter (\<lambda>w. w \<in> set (map fst vec2)) (remdups (map fst vec1))))) = Inr n
          \<and> fl (fl (sqrt s1) * fl (sqrt s2)) \<noteq> 0
          \<and> r = fl (n / fl (fl (sqrt s1) * fl (sqrt s2)))"
    then obtain s1 s2 n where "float_of_int S1 = Inr s1" "float_of_int S2 = Inr s2"
      "float_of_int N = Inr n"
      and den0: "fl (fl (sqrt s1) * fl (sqrt s2)) \<noteq> 0"
      and rr: "r = fl (n / fl (fl (sqrt s1) * fl (sqrt s2)))"
      unfolding S1_def S2_def N_def by blast
    then have s1: "s1 = fl (of_int S1)" and s2: "s2 = fl (of_int S2)" and n: "n = fl (of_int N)"
      by (simp_all add: float_of_int_Inr)
    define r1 where "r1 = fl (sqrt s1)"
    define r2 where "r2 = fl (sqrt s2)"
    define den where "den = fl (r1 * r2)"
    have "S1 \<noteq> 0"
    proof
      assume "S1 = 0"
      then have "r1 = 0" by (simp add: r1_def s1 fl_def)
      then have "den = 0" by (simp add: den_def fl_def)
      with den0 show False by (simp add: den_def r1_def r2_def)
    qed
    with S1 have S1': "1 \<le> real_of_int S1" by simp
    have "S2 \<noteq> 0"
    proof
      assume "S2 = 0"
      then have "r2 = 0" by (simp add: r2_def s2 fl_def)
      then have "den = 0" by (simp add: den_def fl_def)
      with den0 show False by (simp add: den_def r1_def r2_def)
    qed
    with S2 have S2': "1 \<le> real_of_int S2" by simp
    from fl_sqrt_minoration [OF S1'] have b1: "sqrt (of_int S1) * (1 - e) ^ 2 \<le> r1" "1 \<le> r1"
      by (simp_all add: r1_def s1 e_def)
    from fl_sqrt_minoration [OF S2'] have b2: "sqrt (of_int S2) * (1 - e) ^ 2 \<le> r2" "1 \<le> r2"
      by (simp_all add: r2_def s2 e_def)
    define D where "D = sqrt (of_int S1) * sqrt (of_int S2)"
    have Dpos: "0 < D" using S1' S2' by (simp add: D_def)
    have "(sqrt (of_int S1) * (1 - e) ^ 2) * (sqrt (of_int S2) * (1 - e) ^ 2) \<le> r1 * r2"
      using b1 b2 e S1' S2' by (intro mult_mono) simp_all
    then have prod: "D * (1 - e) ^ 4 \<le> r1 * r2"
      by (simp add: D_def power2_eq_square power4_eq_xxxx mult_ac)
    have one: "1 \<le> r1 * r2"
      using mult_mono [of 1 r1 1 r2] b1(2) b2(2) by simp
    from fl_minoration [OF one] have "(r1 * r2) * (1 - e) \<le> den" "1 \<le> den"
      by (simp_all add: den_def e_def)
    moreover have "D * (1 - e) ^ 4 * (1 - e) \<le> (r1 * r2) * (1 - e)"
      using prod e by (intro mult_right_mono) simp_all
    ultimately have den: "D * (1 - e) ^ 5 \<le> den" "0 < den"
      by (simp_all add: power_Suc2 [symmetric] numeral_eq_Suc mult.assoc)
    have numden: "real_of_int N \<le> D"
    proof -
      have "real_of_int (\<Sum>w \<in> set (map fst vec1) \<inter> set (map fst vec2).
                counter_get vec1 w * counter_get vec2 w)
              \<le> sqrt (of_int (\<Sum>w \<in> set (map fst vec1). (counter_get vec1 w)\<^sup>2))
                * sqrt (of_int (\<Sum>w \<in> set (map fst vec2). (counter_get vec2 w)\<^sup>2))"
        by (rule num_le_den) simp_all
      then show ?thesis
        unfolding D_def N_def S1_def S2_def sum_communs
          sum_carres_valeurs [OF d(1)] sum_carres_valeurs [OF d(2)] .
    qed
    have npos: "0 \<le> n" unfolding n using N by (intro fl_nonneg) simp
    have nle: "n \<le> of_int N * (1 + e)"
    proof (cases "N = 0")
      case True
      then show ?thesis by (simp add: n fl_def)
    next
      case False
      with N have "1 \<le> real_of_int N" by simp
      from fl_majoration_normal [OF this] show ?thesis by (simp add: n e_def)
    qed
    from quotient_borne [OF npos nle numden Dpos den(1) e]
    have q: "n / den \<le> (1 + e) / (1 - e) ^ 5" .
    have qpos: "0 \<le> n / den" using npos den(2) by simp
    have rden: "r = fl (n / den)" by (simp add: rr den_def r1_def r2_def)
    have "0 \<le> r" unfolding rden by (rule fl_nonneg [OF qpos])
    moreover have "r \<le> 1 + 1 / 2 ^ 50"
    proof -
      have "r \<le> n / den * (1 + 1 / 2 ^ 53) + 1 / 2 ^ 1075"
        unfolding rden by (rule fl_majoration [OF qpos])
      also have "\<dots> \<le> (1 + e) / (1 - e) ^ 5 * (1 + 1 / 2 ^ 53) + 1 / 2 ^ 1075"
        using q by (intro add_right_mono mult_right_mono) simp_all
      also have "\<dots> \<le> 1 + 1 / 2 ^ 50"
        unfolding e_def by (rule numerique_borne)
      finally show ?thesis .
    qed
    ultimately show ?thesis by simp
  qed
  from both show "0 \<le> r" "r \<le> 1 + 1 / 2 ^ 50" by simp_all
qed

section \<open>The vectoriser\<close>

lemma lower_chr_idem: "lower_chr (lower_chr c) = lower_chr c"
proof -
  have "of_char (char_of (of_char c + 32 :: nat)) = (of_char c + 32 :: nat)"
    if "(of_char c :: nat) \<le> 222"
    using that by (simp add: of_char_of)
  then show ?thesis
    by (auto simp: lower_chr_def Let_def)
qed

lemma findall_w_chars:
  "t \<in> set (findall_w s) \<Longrightarrow> set t \<subseteq> set s \<and> (\<forall>c \<in> set t. is_word_chr c)"
proof (induction s arbitrary: t rule: findall_w.induct)
  case 1
  then show ?case by simp
next
  case (2 c cs)
  show ?case
  proof (cases "is_word_chr c")
    case True
    with "2.prems" consider "t = c # takeWhile is_word_chr cs"
      | "t \<in> set (findall_w (dropWhile is_word_chr cs))"
      by auto
    then show ?thesis
    proof cases
      case 1
      then show ?thesis
        using True by (auto dest: set_takeWhileD)
    next
      case 2
      from "2.IH"(1) [OF True 2] show ?thesis
        by (auto dest: set_dropWhileD)
    qed
  next
    case False
    with "2.prems" have "t \<in> set (findall_w cs)" by simp
    from "2.IH"(2) [OF False this] show ?thesis by auto
  qed
qed

lemma incr_keys: "fst ` set (incr m c) = insert m (fst ` set c)"
proof (induction c)
  case Nil
  then show ?case by simp
next
  case (Cons p c)
  obtain k n where p: "p = (k, n)" by (cases p)
  show ?case using Cons.IH by (simp add: p insert_commute)
qed

lemma incr_distinct: "distinct (map fst c) \<Longrightarrow> distinct (map fst (incr m c))"
proof (induction c)
  case Nil
  then show ?case by simp
next
  case (Cons p c)
  obtain k n where p: "p = (k, n)" by (cases p)
  from Cons.prems have k: "k \<notin> fst ` set c" and d: "distinct (map fst c)"
    by (simp_all add: p)
  show ?case
  proof (cases "k = m")
    case True
    with k d show ?thesis by (simp add: p)
  next
    case False
    with k have "k \<notin> fst ` set (incr m c)" by (simp add: incr_keys)
    with False Cons.IH [OF d] show ?thesis by (simp add: p)
  qed
qed

lemma incr_counts:
  "\<forall>(k, n) \<in> set c. 1 \<le> n \<Longrightarrow> \<forall>(k, n) \<in> set (incr m c). 1 \<le> n"
  by (induction c) (auto split: if_splits)

lemma foldl_incr:
  "distinct (map fst c) \<Longrightarrow> \<forall>(k, n) \<in> set c. 1 \<le> n \<Longrightarrow>
   distinct (map fst (foldl (\<lambda>c m. incr m c) c ms))
   \<and> (\<forall>(k, n) \<in> set (foldl (\<lambda>c m. incr m c) c ms). 1 \<le> n)
   \<and> fst ` set (foldl (\<lambda>c m. incr m c) c ms) = fst ` set c \<union> set ms"
proof (induction ms arbitrary: c)
  case Nil
  then show ?case by simp
next
  case (Cons m ms)
  from Cons.IH [OF incr_distinct [OF Cons.prems(1)] incr_counts [OF Cons.prems(2)], of m]
  show ?case by (simp add: incr_keys)
qed

lemma counter_of_props:
  "distinct (map fst (counter_of ms))"
  "\<forall>(k, n) \<in> set (counter_of ms). 1 \<le> n"
  "fst ` set (counter_of ms) = set ms"
  using foldl_incr [of "[]" ms] by (simp_all add: counter_of_def)

lemma nettoyer_et_vectoriser_distinct: "distinct (map fst (nettoyer_et_vectoriser texte))"
  by (simp add: nettoyer_et_vectoriser_def Let_def counter_of_props(1))

lemma nettoyer_et_vectoriser_counts: "\<forall>(k, n) \<in> set (nettoyer_et_vectoriser texte). 1 \<le> n"
  by (simp add: nettoyer_et_vectoriser_def Let_def counter_of_props(2))

lemma nettoyer_et_vectoriser_keys:
  "fst ` set (nettoyer_et_vectoriser texte)
     = {m \<in> set (findall_w (lower_str texte)). m \<notin> set stopwords \<and> 2 < length m}"
  by (auto simp: nettoyer_et_vectoriser_def Let_def counter_of_props(3))

section \<open>Keywords and tokens\<close>

text \<open>
  A keyword is made of word characters, so wherever it occurs in a string it lies inside
  one token of that string.
\<close>

lemma starts_with_iff: "starts_with m s \<longleftrightarrow> (\<exists>r. s = m @ r)"
  by (induction m s rule: starts_with.induct) auto

lemma str_in_iff: "str_in m s \<longleftrightarrow> (\<exists>p r. s = p @ m @ r)"
proof (induction s)
  case Nil
  then show ?case by simp
next
  case (Cons b s)
  have "(\<exists>p r. b # s = p @ m @ r) \<longleftrightarrow> (\<exists>r. b # s = m @ r) \<or> (\<exists>p r. s = p @ m @ r)"
  proof
    assume "\<exists>p r. b # s = p @ m @ r"
    then obtain p r where pr: "b # s = p @ m @ r" by blast
    show "(\<exists>r. b # s = m @ r) \<or> (\<exists>p r. s = p @ m @ r)"
    proof (cases p)
      case Nil
      with pr show ?thesis by auto
    next
      case (Cons a p')
      with pr have "s = p' @ m @ r" by simp
      then show ?thesis by blast
    qed
  next
    assume "(\<exists>r. b # s = m @ r) \<or> (\<exists>p r. s = p @ m @ r)"
    then show "\<exists>p r. b # s = p @ m @ r"
    proof
      assume "\<exists>r. b # s = m @ r"
      then obtain r where "b # s = [] @ m @ r" by auto
      then show ?thesis by blast
    next
      assume "\<exists>p r. s = p @ m @ r"
      then obtain p r where "b # s = (b # p) @ m @ r" by auto
      then show ?thesis by blast
    qed
  qed
  with Cons.IH show ?case by (simp add: starts_with_iff)
qed

lemma mot_dans_un_token:
  assumes "s = p @ m @ r" "m \<noteq> []" "\<forall>c \<in> set m. is_word_chr c"
  shows "\<exists>t \<in> set (findall_w s). \<exists>p' r'. t = p' @ m @ r'"
  using assms(1)
proof (induction s arbitrary: p rule: findall_w.induct)
  case 1
  with assms(2) show ?case by simp
next
  case (2 c cs)
  show ?case
  proof (cases "is_word_chr c")
    case word: True
    show ?thesis
    proof (cases "\<forall>x \<in> set p. is_word_chr x")
      case True
      have "c # takeWhile is_word_chr cs = p @ m @ takeWhile is_word_chr r"
      proof -
        have "takeWhile is_word_chr (p @ m @ r) = p @ m @ takeWhile is_word_chr r"
          using True assms(3) by (simp add: takeWhile_append2)
        moreover have "takeWhile is_word_chr (c # cs) = c # takeWhile is_word_chr cs"
          using word by simp
        ultimately show ?thesis using "2.prems" by simp
      qed
      then show ?thesis using word by auto
    next
      case False
      then obtain x where x: "x \<in> set p" "\<not> is_word_chr x" by blast
      from x word "2.prems" obtain p' where p: "p = c # p'" 
        by (cases p) auto
      with x word have x': "x \<in> set p'" by auto
      from p "2.prems" have cs: "cs = p' @ m @ r" by simp
      have "dropWhile is_word_chr cs = dropWhile is_word_chr p' @ m @ r"
        unfolding cs using x' x(2) by (simp add: dropWhile_append1)
      from "2.IH"(1) [OF word this] show ?thesis using word by auto
    qed
  next
    case False
    have "p \<noteq> []"
    proof
      assume "p = []"
      with "2.prems" assms(2) have "c \<in> set m" by (cases m) auto
      with assms(3) False show False by blast
    qed
    then obtain p' where "p = c # p'" using "2.prems" by (cases p) auto
    with "2.prems" have "cs = p' @ m @ r" by simp
    from "2.IH"(2) [OF False this] show ?thesis using False by simp
  qed
qed

lemma str_in_token:
  assumes "str_in m s" "m \<noteq> []" "\<forall>c \<in> set m. is_word_chr c"
  shows "\<exists>t \<in> set (findall_w s). str_in m t"
proof -
  from assms(1) obtain p r where "s = p @ m @ r" unfolding str_in_iff by blast
  from mot_dans_un_token [OF this assms(2,3)] show ?thesis
    unfolding str_in_iff by blast
qed

lemma str_in_length: "str_in m t \<Longrightarrow> length m \<le> length t"
  unfolding str_in_iff by auto

lemma mots_forts_mots:
  "\<forall>m \<in> set mots_forts. 2 < length m \<and> (\<forall>c \<in> set m. is_word_chr c)
      \<and> (\<forall>sw \<in> set stopwords. \<not> str_in m sw)"
  by code_simp

section \<open>Scores\<close>

lemma cosine_similarity_vide: "cosine_similarity [] v = Inr 0"
  by (simp add: cosine_similarity_def)

lemma nb_mots_forts_zero:
  assumes "\<forall>t \<in> set (findall_w (lower_str q)). t \<in> set stopwords \<or> length t \<le> 2"
  shows "nb_mots_forts q = 0"
proof -
  have "\<not> str_in m (lower_str q)" if m: "m \<in> set mots_forts" for m
  proof
    assume occ: "str_in m (lower_str q)"
    from mots_forts_mots m have len: "2 < length m" and word: "\<forall>c \<in> set m. is_word_chr c"
      and sw: "\<forall>sw \<in> set stopwords. \<not> str_in m sw"
      by blast+
    from len have "m \<noteq> []" by auto
    from str_in_token [OF occ this word] obtain t
      where t: "t \<in> set (findall_w (lower_str q))" "str_in m t" by blast
    from str_in_length [OF t(2)] len have "2 < length t" by simp
    with assms t(1) have "t \<in> set stopwords" by auto
    with sw t(2) show False by blast
  qed
  then show ?thesis by (simp add: nb_mots_forts_def)
qed

text \<open>The inner loop applies the same rounded addition once for every keyword found.\<close>

lemma foldl_bonus:
  "foldl (\<lambda>score mot. if P mot then f score else score) a ms = (f ^^ length (filter P ms)) a"
  by (induction ms arbitrary: a) (simp_all add: funpow_swap1)

lemma score_chunk_eq:
  "score_chunk q vq v =
     (case cosine_similarity vq v of
        Inl e \<Rightarrow> Inl e
      | Inr c \<Rightarrow> Inr (((\<lambda>s. fl (s + fl (18 / 100))) ^^ nb_mots_forts q) c))"
  unfolding score_chunk_def nb_mots_forts_def foldl_bonus ..

lemma fl_018: "fl (9 / 50) = 6485183463413514 / 2 ^ 55"
  using fl_eval [of "9 / 50" 55] by (simp add: round_half_even_def)

lemma fl_012: "fl (3 / 25) = 8646911284551352 / 2 ^ 56"
  using fl_eval [of "3 / 25" 56] by (simp add: round_half_even_def)

lemma fl_minoration_petit:
  assumes "1 / 10 \<le> x"
  shows "x * (1 - 1 / 2 ^ 53) \<le> fl x"
proof -
  have "2 powr (- 1022) \<le> (1 / 10 :: real)" by (simp add: powr_minus_divide)
  with assms have n: "2 powr (- 1022) \<le> \<bar>x\<bar>" by simp
  define d where "d = x / 2 ^ 53"
  have "\<bar>x\<bar> = x" using assms by simp
  with fl_relatif [OF n] have "\<bar>fl x - x\<bar> \<le> d" by (simp only: d_def)
  then have "x - d \<le> fl x" by linarith
  moreover have "x * (1 - 1 / 2 ^ 53) = x - d" by (simp add: d_def algebra_simps)
  ultimately show ?thesis by simp
qed

lemma bonus_pas:
  assumes "0 \<le> s" "s \<le> 3"
  shows "s \<le> fl (s + fl (18 / 100))" "fl (s + fl (18 / 100)) \<le> s + (18 / 100 + 1 / 10 ^ 12)"
proof -
  define B :: real where "B = 6485183463413514 / 2 ^ 55"
  have B: "fl (18 / 100) = B" by (simp add: fl_018 B_def)
  define e :: real where "e = 1 / 2 ^ 53"
  have x: "1 / 10 \<le> s + B" "0 \<le> s + B" using assms(1) by (simp_all add: B_def)
  have se: "s * e \<le> 3 * e" using assms(2) by (simp add: e_def)
  from fl_minoration_petit [OF x(1)] have "(s + B) * (1 - e) \<le> fl (s + B)" by (simp add: e_def)
  moreover have "(s + B) * (1 - e) = s + (B - B * e) - s * e" by (simp add: algebra_simps)
  moreover have "3 * e \<le> B - B * e" by (simp add: B_def e_def)
  ultimately have "s \<le> fl (s + B)" using se by linarith
  then show "s \<le> fl (s + fl (18 / 100))" by (simp only: B)
  from fl_majoration [OF x(2)] have "fl (s + B) \<le> (s + B) * (1 + e) + 1 / 2 ^ 1075"
    by (simp add: e_def)
  moreover have "(s + B) * (1 + e) = s + (B + B * e) + s * e" by (simp add: algebra_simps)
  moreover have "(B + B * e) + 3 * e + 1 / 2 ^ 1075 \<le> 18 / 100 + 1 / 10 ^ 12"
    by (simp add: B_def e_def)
  ultimately have "fl (s + B) \<le> s + (18 / 100 + 1 / 10 ^ 12)" using se by linarith
  then show "fl (s + fl (18 / 100)) \<le> s + (18 / 100 + 1 / 10 ^ 12)" by (simp only: B)
qed

lemma iter_borne:
  fixes f :: "real \<Rightarrow> real"
  assumes step: "\<And>s. 0 \<le> s \<Longrightarrow> s \<le> M \<Longrightarrow> s \<le> f s \<and> f s \<le> s + c"
    and c: "0 \<le> c" and a: "0 \<le> a"
  shows "a + real k * c \<le> M \<Longrightarrow> a \<le> (f ^^ k) a \<and> (f ^^ k) a \<le> a + real k * c"
proof (induction k)
  case 0
  then show ?case by simp
next
  case (Suc k)
  have eq: "real (Suc k) * c = real k * c + c" by (simp add: algebra_simps)
  from Suc.prems c have le: "a + real k * c \<le> M" unfolding eq by linarith
  from Suc.IH [OF le] have s: "a \<le> (f ^^ k) a" "(f ^^ k) a \<le> a + real k * c" by simp_all
  with a le have "0 \<le> (f ^^ k) a" "(f ^^ k) a \<le> M" by linarith+
  from step [OF this] s show ?case unfolding eq by simp
qed

lemma bonus_iter:
  assumes "0 \<le> a" "a + real k * (18 / 100 + 1 / 10 ^ 12) \<le> 3"
  shows "a \<le> ((\<lambda>s. fl (s + fl (18 / 100))) ^^ k) a
         \<and> ((\<lambda>s. fl (s + fl (18 / 100))) ^^ k) a \<le> a + real k * (18 / 100 + 1 / 10 ^ 12)"
proof (rule iter_borne [where M = 3])
  show "s \<le> fl (s + fl (18 / 100)) \<and> fl (s + fl (18 / 100)) \<le> s + (18 / 100 + 1 / 10 ^ 12)"
    if "0 \<le> s" "s \<le> 3" for s
    using bonus_pas [OF that] by (rule conjI)
  show "(0::real) \<le> 18 / 100 + 1 / 10 ^ 12" by simp
  show "0 \<le> a" by (rule assms(1))
  show "a + real k * (18 / 100 + 1 / 10 ^ 12) \<le> 3" by (rule assms(2))
qed

lemma bonus_mono:
  assumes "0 \<le> a" "a \<le> b"
  shows "0 \<le> ((\<lambda>s. fl (s + fl (18 / 100))) ^^ k) a
         \<and> ((\<lambda>s. fl (s + fl (18 / 100))) ^^ k) a \<le> ((\<lambda>s. fl (s + fl (18 / 100))) ^^ k) b"
proof (induction k)
  case 0
  with assms show ?case by simp
next
  case (Suc k)
  have B: "0 \<le> fl (18 / 100)" by (intro fl_nonneg) simp
  from Suc B show ?case by (auto intro!: fl_nonneg fl_mono)
qed


text \<open>The counts of a vector add up to the number of terms kept, at most the length of the text.\<close>

lemma incr_sum: "sum_list (map snd (incr m c)) = sum_list (map snd c) + 1"
  by (induction c) auto

lemma counter_of_sum: "sum_list (map snd (counter_of ms)) = int (length ms)"
proof -
  have "sum_list (map snd (foldl (\<lambda>c m. incr m c) c ms)) = sum_list (map snd c) + int (length ms)"
    for c
    by (induction ms arbitrary: c) (simp_all add: incr_sum)
  from this [of "[]"] show ?thesis by (simp add: counter_of_def)
qed

lemma findall_w_length: "length (findall_w s) \<le> length s"
proof (induction s rule: findall_w.induct)
  case 1
  then show ?case by simp
next
  case (2 c cs)
  have "length (dropWhile is_word_chr cs) \<le> length cs" by (rule length_dropWhile_le)
  with 2 show ?case by auto
qed

lemma sum_carres_le:
  fixes xs :: "int list"
  assumes "\<forall>x \<in> set xs. 0 \<le> x"
  shows "sum_list (map (\<lambda>v. v * v) xs) \<le> (sum_list xs)\<^sup>2"
  using assms
proof (induction xs)
  case Nil
  then show ?case by simp
next
  case (Cons x xs)
  then have x: "0 \<le> x" and s: "0 \<le> sum_list xs" by (simp_all add: sum_list_nonneg)
  have "(x + sum_list xs)\<^sup>2 = x * x + 2 * x * sum_list xs + (sum_list xs)\<^sup>2"
    by (simp add: power2_eq_square algebra_simps)
  moreover have "0 \<le> 2 * x * sum_list xs" using x s by simp
  ultimately show ?case using Cons by simp
qed

lemma vecteur_carres:
  "0 \<le> sum_list (map (\<lambda>v. v * v) (map snd (nettoyer_et_vectoriser t)))"
  "sum_list (map (\<lambda>v. v * v) (map snd (nettoyer_et_vectoriser t))) \<le> (int (length t))\<^sup>2"
proof -
  let ?v = "nettoyer_et_vectoriser t"
  show "0 \<le> sum_list (map (\<lambda>v. v * v) (map snd ?v))"
    by (intro sum_list_nonneg) auto
  have nn: "\<forall>x \<in> set (map snd ?v). 0 \<le> x"
    using nettoyer_et_vectoriser_counts [of t] by fastforce
  have "sum_list (map snd ?v)
          = int (length (filter (\<lambda>m. m \<notin> set stopwords \<and> 2 < length m)
                  (findall_w (lower_str t))))"
    by (simp add: nettoyer_et_vectoriser_def Let_def counter_of_sum)
  also have "\<dots> \<le> int (length (findall_w (lower_str t)))" by simp
  also have "\<dots> \<le> int (length (lower_str t))" using findall_w_length by simp
  also have "\<dots> = int (length t)" by (simp add: lower_str_def)
  finally have le: "sum_list (map snd ?v) \<le> int (length t)" .
  have "0 \<le> sum_list (map snd ?v)" using nn by (intro sum_list_nonneg) auto
  with le have "(sum_list (map snd ?v))\<^sup>2 \<le> (int (length t))\<^sup>2"
    by (intro power_mono) simp_all
  with sum_carres_le [OF nn] show
    "sum_list (map (\<lambda>v. v * v) (map snd ?v)) \<le> (int (length t))\<^sup>2" by linarith
qed

lemma non_deborde: "\<bar>x\<bar> \<le> 2 ^ 126 \<Longrightarrow> \<not> deborde x"
  by (simp add: deborde_def)

lemma nettoyer_nonneg: "\<forall>(w, n) \<in> set (nettoyer_et_vectoriser t). 0 \<le> n"
  using nettoyer_et_vectoriser_counts [of t] by fastforce

lemma num_entre:
  assumes d: "distinct (map fst vec1)" "distinct (map fst vec2)"
    and nn: "\<forall>(w, n) \<in> set vec1. 0 \<le> n" "\<forall>(w, n) \<in> set vec2. 0 \<le> n"
  shows "0 \<le> sum_list (map (\<lambda>w. counter_get vec1 w * counter_get vec2 w)
                (filter (\<lambda>w. w \<in> set (map fst vec2)) (remdups (map fst vec1))))"
    and "real_of_int (sum_list (map (\<lambda>w. counter_get vec1 w * counter_get vec2 w)
                (filter (\<lambda>w. w \<in> set (map fst vec2)) (remdups (map fst vec1)))))
          \<le> sqrt (of_int (sum_list (map (\<lambda>v. v * v) (map snd vec1))))
            * sqrt (of_int (sum_list (map (\<lambda>v. v * v) (map snd vec2))))"
proof -
  have "0 \<le> counter_get vec1 w * counter_get vec2 w" for w
    using counter_get_nonneg [OF nn(1)] counter_get_nonneg [OF nn(2)] by simp
  then show "0 \<le> sum_list (map (\<lambda>w. counter_get vec1 w * counter_get vec2 w)
                (filter (\<lambda>w. w \<in> set (map fst vec2)) (remdups (map fst vec1))))"
    by (intro sum_list_nonneg) auto
  have "real_of_int (\<Sum>w \<in> set (map fst vec1) \<inter> set (map fst vec2).
                counter_get vec1 w * counter_get vec2 w)
              \<le> sqrt (of_int (\<Sum>w \<in> set (map fst vec1). (counter_get vec1 w)\<^sup>2))
                * sqrt (of_int (\<Sum>w \<in> set (map fst vec2). (counter_get vec2 w)\<^sup>2))"
    by (rule num_le_den) simp_all
  then show "real_of_int (sum_list (map (\<lambda>w. counter_get vec1 w * counter_get vec2 w)
                (filter (\<lambda>w. w \<in> set (map fst vec2)) (remdups (map fst vec1)))))
          \<le> sqrt (of_int (sum_list (map (\<lambda>v. v * v) (map snd vec1))))
            * sqrt (of_int (sum_list (map (\<lambda>v. v * v) (map snd vec2))))"
    unfolding sum_communs sum_carres_valeurs [OF d(1)] sum_carres_valeurs [OF d(2)] .
qed

lemma cosine_similarity_defini:
  assumes "length q \<le> sys_maxsize" "length t \<le> sys_maxsize"
  shows "\<exists>c. cosine_similarity (nettoyer_et_vectoriser q) (nettoyer_et_vectoriser t) = Inr c"
proof -
  let ?v1 = "nettoyer_et_vectoriser q" and ?v2 = "nettoyer_et_vectoriser t"
  define S1 where "S1 = sum_list (map (\<lambda>v. v * v) (map snd ?v1))"
  define S2 where "S2 = sum_list (map (\<lambda>v. v * v) (map snd ?v2))"
  define N where "N = sum_list (map (\<lambda>w. counter_get ?v1 w * counter_get ?v2 w)
                (filter (\<lambda>w. w \<in> set (map fst ?v2)) (remdups (map fst ?v1))))"
  have carre: "0 \<le> sum_list (map (\<lambda>v. v * v) (map snd (nettoyer_et_vectoriser x)))
      \<and> sum_list (map (\<lambda>v. v * v) (map snd (nettoyer_et_vectoriser x))) \<le> 2 ^ 126"
    if "length x \<le> sys_maxsize" for x
  proof -
    from that have "int (length x) \<le> 2 ^ 63" by (simp add: sys_maxsize_def)
    then have "(int (length x))\<^sup>2 \<le> (2 ^ 63)\<^sup>2" by (intro power_mono) simp_all
    with vecteur_carres [of x] show ?thesis by simp
  qed
  from carre [OF assms(1)] have S1: "0 \<le> S1" "S1 \<le> 2 ^ 126" by (simp_all add: S1_def)
  from carre [OF assms(2)] have S2: "0 \<le> S2" "S2 \<le> 2 ^ 126" by (simp_all add: S2_def)
  have r1: "sqrt (of_int S1) \<le> 2 ^ 63"
    using S1 by (intro real_le_lsqrt) (simp_all add: of_int_le_iff [of S1 "2 ^ 126", simplified])
  have r2: "sqrt (of_int S2) \<le> 2 ^ 63"
    using S2 by (intro real_le_lsqrt) (simp_all add: of_int_le_iff [of S2 "2 ^ 126", simplified])
  from num_entre [OF nettoyer_et_vectoriser_distinct nettoyer_et_vectoriser_distinct
      nettoyer_nonneg nettoyer_nonneg, of q t]
  have N: "0 \<le> N" "real_of_int N \<le> sqrt (of_int S1) * sqrt (of_int S2)"
    by (simp_all add: N_def S1_def S2_def)
  have "sqrt (of_int S1) * sqrt (of_int S2) \<le> 2 ^ 63 * 2 ^ 63"
    using r1 r2 S1(1) S2(1) by (intro mult_mono) simp_all
  with N have Nle: "real_of_int N \<le> 2 ^ 126" by simp
  have d1: "\<not> deborde (of_int S1)"
    using S1 by (intro non_deborde) (simp add: of_int_le_iff [of S1 "2 ^ 126", simplified])
  have d2: "\<not> deborde (of_int S2)"
    using S2 by (intro non_deborde) (simp add: of_int_le_iff [of S2 "2 ^ 126", simplified])
  have d3: "\<not> deborde (of_int N)"
    using N(1) Nle by (intro non_deborde) simp
  show ?thesis
    unfolding cosine_similarity_def Let_def float_of_int_def
    using d1 d2 d3 by (simp add: S1_def S2_def N_def)
qed

lemma score_chunk_defini:
  assumes "length q \<le> sys_maxsize" "length t \<le> sys_maxsize"
  shows "\<exists>s. score_chunk q (nettoyer_et_vectoriser q) (nettoyer_et_vectoriser t) = Inr s"
  using cosine_similarity_defini [OF assms] by (auto simp: score_chunk_eq)


text \<open>Rounding to 3 decimals.\<close>

lemma round_half_even_gt:
  assumes "of_int n - 1 / 2 < y"
  shows "n \<le> round_half_even y"
proof -
  from round_half_even_erreur [of y] assms
  have "real_of_int n - 1 < of_int (round_half_even y)" by linarith
  then have "n - 1 < round_half_even y"
    by (metis of_int_1 of_int_diff of_int_less_iff)
  then show ?thesis by simp
qed

lemma round_half_even_lt:
  assumes "y < of_int n + 1 / 2"
  shows "round_half_even y \<le> n"
proof -
  from round_half_even_erreur [of y] assms
  have "real_of_int (round_half_even y) < of_int n + 1" by linarith
  then have "round_half_even y < n + 1"
    by (metis of_int_1 of_int_add of_int_less_iff)
  then show ?thesis by simp
qed

lemma py_round_3_ge:
  assumes "0 \<le> n" "of_int n - 1 / 2 < x * 1000"
  shows "fl (of_int n / 1000) \<le> py_round x 3"
proof -
  from assms(2) have "n \<le> round_half_even (x * 10 ^ 3)"
    by (intro round_half_even_gt) simp
  then have "real_of_int n / 1000 \<le> of_int (round_half_even (x * 10 ^ 3)) / 1000"
    by (simp add: divide_right_mono)
  moreover have "0 \<le> real_of_int n / 1000" using assms(1) by simp
  ultimately show ?thesis unfolding py_round_def
    by (intro fl_mono) simp_all
qed

lemma py_round_3_le:
  assumes "0 \<le> x" "x * 1000 < of_int n + 1 / 2"
  shows "py_round x 3 \<le> fl (of_int n / 1000)"
proof -
  from assms(2) have le: "round_half_even (x * 10 ^ 3) \<le> n"
    by (intro round_half_even_lt) simp
  have "0 \<le> round_half_even (x * 10 ^ 3)"
    using assms(1) by (intro round_half_even_ge) simp
  then have "0 \<le> real_of_int (round_half_even (x * 10 ^ 3)) / 10 ^ 3" by simp
  moreover from le have "real_of_int (round_half_even (x * 10 ^ 3)) / 10 ^ 3 \<le> of_int n / 1000"
    by (simp add: divide_right_mono)
  ultimately show ?thesis unfolding py_round_def
    by (intro fl_mono)
qed

lemma py_round_3_nonneg: "0 \<le> x \<Longrightarrow> 0 \<le> py_round x 3"
proof -
  assume "0 \<le> x"
  then have "0 \<le> round_half_even (x * 10 ^ 3)" by (intro round_half_even_ge) simp
  then show ?thesis unfolding py_round_def by (intro fl_nonneg) simp
qed

lemma confiance_match:
  assumes "fl (12 / 100) < ms"
  shows "fl (12 / 100) \<le> py_round ms 3" "0 < py_round ms 3"
proof -
  from assms have "8646911284551352 / 2 ^ 56 < ms" by (simp add: fl_012)
  then have "real_of_int 120 - 1 / 2 < ms * 1000" by simp
  from py_round_3_ge [OF _ this] have "fl (120 / 1000) \<le> py_round ms 3" by simp
  then show "fl (12 / 100) \<le> py_round ms 3" by simp
  then show "0 < py_round ms 3" by (simp add: fl_012)
qed

text \<open>Bounds on the score of a chunk of the corpus.\<close>

lemma score_chunk_bornes:
  assumes "score_chunk q (nettoyer_et_vectoriser q) (nettoyer_et_vectoriser t) = Inr s"
  shows "0 \<le> s" "s \<le> 29801 / 10000"
proof -
  let ?f = "\<lambda>s. fl (s + fl (18 / 100))"
  from assms obtain c
    where c: "cosine_similarity (nettoyer_et_vectoriser q) (nettoyer_et_vectoriser t) = Inr c"
      and s: "s = (?f ^^ nb_mots_forts q) c"
    by (auto simp: score_chunk_eq split: sum.splits)
  from cosine_similarity_bornes [OF c nettoyer_et_vectoriser_distinct
      nettoyer_et_vectoriser_distinct nettoyer_nonneg nettoyer_nonneg]
  have cb: "0 \<le> c" "c \<le> 1 + 1 / 2 ^ 50" .
  have "nb_mots_forts q \<le> length mots_forts"
    unfolding nb_mots_forts_def by (rule length_filter_le)
  also have "length mots_forts = 11" by (simp add: mots_forts_def)
  finally have "real (nb_mots_forts q) \<le> 11" by simp
  then have k: "real (nb_mots_forts q) * (18 / 100 + 1 / 10 ^ 12) \<le> 11 * (18 / 100 + 1 / 10 ^ 12)"
    by (intro mult_right_mono) simp_all
  have "c + 11 * (18 / 100 + 1 / 10 ^ 12) \<le> 29801 / 10000"
    using cb(2) by simp
  with k have tot: "c + real (nb_mots_forts q) * (18 / 100 + 1 / 10 ^ 12) \<le> 29801 / 10000"
    by linarith
  then have "c + real (nb_mots_forts q) * (18 / 100 + 1 / 10 ^ 12) \<le> 3" by simp
  from bonus_iter [OF cb(1) this] have "c \<le> s" "s \<le> c + real (nb_mots_forts q) * (18 / 100 + 1 / 10 ^ 12)"
    by (simp_all add: s)
  with cb(1) tot show "0 \<le> s" "s \<le> 29801 / 10000" by linarith+
qed

lemma confiance_bornes:
  assumes "0 \<le> s" "s \<le> 29801 / 10000"
  shows "0 \<le> py_round s 3" "py_round s 3 \<le> fl (298 / 100)"
proof -
  show "0 \<le> py_round s 3" by (rule py_round_3_nonneg [OF assms(1)])
  from assms(2) have "s * 1000 < real_of_int 2980 + 1 / 2" by simp
  from py_round_3_le [OF assms(1) this] show "py_round s 3 \<le> fl (298 / 100)" by simp
qed

section \<open>The example inputs, evaluated\<close>

lemma fl_petits_entiers:
  "fl 2 = 2" "fl 3 = 3" "fl 4 = 4" "fl 5 = 5" "fl 6 = 6" "fl 9 = 9" "fl 16 = 16" "fl 18 = 18"
  "fl 25 = 25" "fl 39 = 39" "fl 65 = 65" "fl 1625 = 1625"
  using fl_eval [of 2 51] fl_eval [of 3 51] fl_eval [of 4 50] fl_eval [of 5 50]
    fl_eval [of 6 50] fl_eval [of 9 49] fl_eval [of 16 48] fl_eval [of 18 48]
    fl_eval [of 25 48] fl_eval [of 39 47] fl_eval [of 65 46] fl_eval [of 1625 42]
  by simp_all

lemma sqrt_carres: "sqrt 9 = 3" "sqrt 16 = 4" "sqrt 25 = 5"
  using real_sqrt_abs [of 3] real_sqrt_abs [of 4] real_sqrt_abs [of 5] by simp_all

lemma fl_bonus_exact: "fl (3242591731706757 / 18014398509481984) = 3242591731706757 / 18014398509481984"
  using fl_eval [of "3242591731706757 / 18014398509481984" 55] by (simp add: round_half_even_def)

lemma fl_un_plus_bonus: "fl (21256990241188741 / 18014398509481984) = 5314247560297185 / 4503599627370496"
  using fl_eval [of "21256990241188741 / 18014398509481984" 52] by (simp add: round_half_even_def)

lemma fl_118: "fl (59 / 50) = 5314247560297185 / 4503599627370496"
  using fl_eval [of "59 / 50" 52] by (simp add: round_half_even_def)

lemma fl_016: "fl (4 / 25) = 5764607523034235 / 36028797018963968"
  using fl_eval [of "4 / 25" 55] by (simp add: round_half_even_def)

lemma fl_3_16: "fl (3 / 16) = 3 / 16"
  using fl_eval [of "3 / 16" 55] by (simp add: round_half_even_def)

lemma fl_3_16_plus_bonus: "fl (6620291452234629 / 18014398509481984) = 6620291452234629 / 18014398509481984"
  using fl_eval [of "6620291452234629 / 18014398509481984" 54] by (simp add: round_half_even_def)

lemma fl_0367: "fl (367 / 1000) = 413205265811243 / 1125899906842624"
  using fl_eval [of "367 / 1000" 54] by (simp add: round_half_even_def)

lemma fl_3_5: "fl (3 / 5) = 5404319552844595 / 9007199254740992"
  using fl_eval [of "3 / 5" 53] by (simp add: round_half_even_def)

lemma fl_3_5_plus_bonus: "fl (14051230837395947 / 18014398509481984) = 3512807709348987 / 4503599627370496"
  using fl_eval [of "14051230837395947 / 18014398509481984" 53] by (simp add: round_half_even_def)

lemma fl_078: "fl (39 / 50) = 3512807709348987 / 4503599627370496"
  using fl_eval [of "39 / 50" 53] by (simp add: round_half_even_def)

lemma fl_sqrt_2: "fl (sqrt 2) = 6369051672525773 / 4503599627370496"
  using fl_sqrt_eval [of 2 52 6369051672525773] by simp

lemma fl_sqrt_18: "fl (sqrt 18) = 4776788754394329 / 1125899906842624"
  using fl_sqrt_eval [of 18 50 4776788754394329] by simp

lemma fl_sqrt_2_carre: "fl (40564819207303346393761349247529 / 20282409603651670423947251286016) = 4503599627370497 / 2251799813685248"
  using fl_eval [of "40564819207303346393761349247529 / 20282409603651670423947251286016" 51] by (simp add: round_half_even_def)

lemma fl_cos_2_2: "fl (2251799813685248 / 4503599627370497) = 4503599627370495 / 9007199254740992"
  using fl_eval [of "2251799813685248 / 4503599627370497" 54] by (simp add: round_half_even_def)

lemma fl_sqrt_2_18: "fl (30423614405477505018532257541317 / 5070602400912917605986812821504) = 6"
  using fl_eval [of "30423614405477505018532257541317 / 5070602400912917605986812821504" 50] by (simp add: round_half_even_def)

lemma fl_demi: "fl (1 / 2) = 1 / 2"
  using fl_eval [of "1 / 2" 53] by (simp add: round_half_even_def)

lemma fl_cos_2_2_plus_bonus: "fl (12249790986447747 / 18014398509481984) = 3062447746611937 / 4503599627370496"
  using fl_eval [of "12249790986447747 / 18014398509481984" 53] by (simp add: round_half_even_def)

lemma fl_demi_plus_bonus: "fl (12249790986447749 / 18014398509481984) = 3062447746611937 / 4503599627370496"
  using fl_eval [of "12249790986447749 / 18014398509481984" 53] by (simp add: round_half_even_def)

lemma fl_068: "fl (17 / 25) = 6124895493223875 / 9007199254740992"
  using fl_eval [of "17 / 25" 53] by (simp add: round_half_even_def)

lemma fl_sqrt_3: "fl (sqrt 3) = 3900231685776981 / 2251799813685248"
  using fl_sqrt_eval [of 3 52 7800463371553962] by simp

lemma fl_sqrt_3_carre: "fl (15211807202738751055289669474361 / 5070602400912917605986812821504) = 6755399441055743 / 2251799813685248"
  using fl_eval [of "15211807202738751055289669474361 / 5070602400912917605986812821504" 51] by (simp add: round_half_even_def)

lemma fl_cos_3_3: "fl (6755399441055744 / 6755399441055743) = 4503599627370497 / 4503599627370496"
  using fl_eval [of "6755399441055744 / 6755399441055743" 52] by (simp add: round_half_even_def)

lemma fl_sqrt_65: "fl (sqrt 65) = 283665476492205 / 35184372088832"
  using fl_sqrt_eval [of 65 49 4538647623875280] by simp

lemma fl_sqrt_1625: "fl (sqrt 1625) = 1418327382461025 / 35184372088832"
  using fl_sqrt_eval [of 1625 47 5673309529844100] by simp

lemma fl_sqrt_65_1625: "fl (402330512767748537357128810125 / 1237940039285380274899124224) = 5717460464435199 / 17592186044416"
  using fl_eval [of "402330512767748537357128810125 / 1237940039285380274899124224" 44] by (simp add: round_half_even_def)

lemma fl_cos_65_1625: "fl (228698418577408 / 1905820154811733) = 4323455642275677 / 36028797018963968"
  using fl_eval [of "228698418577408 / 1905820154811733" 56] by (simp add: round_half_even_def)

lemma fl_298: "fl (149 / 50) = 6710363444782039 / 2251799813685248"
  using fl_eval [of "149 / 50" 51] by (simp add: round_half_even_def)

lemmas fl_exemples = fl_petits_entiers fl_un sqrt_carres fl_018 fl_012 fl_bonus_exact
  fl_un_plus_bonus fl_118 fl_016 fl_3_16 fl_3_16_plus_bonus fl_0367 fl_3_5 fl_3_5_plus_bonus
  fl_078 fl_sqrt_2 fl_sqrt_18 fl_sqrt_2_carre fl_cos_2_2 fl_sqrt_2_18 fl_demi
  fl_cos_2_2_plus_bonus fl_demi_plus_bonus fl_068 fl_sqrt_3 fl_sqrt_3_carre fl_cos_3_3
  fl_sqrt_65 fl_sqrt_1625 fl_sqrt_65_1625 fl_cos_65_1625

lemmas cosine_eval = cosine_similarity_def float_of_int_def deborde_def counter_get_def

lemma vec_linux: "nettoyer_et_vectoriser ''Linux'' = [(''linux'', 1)]"
  by code_simp

lemma vec_linux_bis: "nettoyer_et_vectoriser ''linux !'' = [(''linux'', 1)]"
  by code_simp

lemma vec_q_linux: "nettoyer_et_vectoriser ''linux'' = [(''linux'', 1)]"
  by code_simp

lemma nb_mots_forts_linux: "nb_mots_forts ''linux'' = 1"
  by code_simp

lemma cosine_linux: "cosine_similarity [(''linux'', 1)] [(''linux'', 1)] = Inr 1"
  by (simp add: cosine_eval fl_un)

lemma score_linux:
  "score_chunk ''linux'' [(''linux'', 1)] [(''linux'', 1)] = Inr (fl (118 / 100))"
  by (simp add: score_chunk_eq cosine_linux nb_mots_forts_linux fl_exemples)

lemma py_round_118: "py_round (fl (118 / 100)) 3 = fl (118 / 100)"
  by (simp add: py_round_def fl_exemples round_half_even_def)

lemma seuil_lt_118: "fl (12 / 100) < fl (118 / 100)"
  by (simp add: fl_exemples)

lemma vec_chunk_seuil:
  "nettoyer_et_vectoriser ''aaa xxx xxx yyy yyy zzz zzz zzz zzz''
     = [(''aaa'', 1), (''xxx'', 2), (''yyy'', 2), (''zzz'', 4)]"
  by code_simp

lemma vec_question_seuil: "nettoyer_et_vectoriser question_seuil = [(''aaa'', 3), (''bbb'', 4)]"
  by code_simp

lemma vec_question_au_dessus:
  "nettoyer_et_vectoriser question_au_dessus = [(''aaa'', 4), (''bbb'', 3)]"
  by code_simp

lemma nb_mots_forts_seuil: "nb_mots_forts question_seuil = 0"
  by code_simp

lemma nb_mots_forts_au_dessus: "nb_mots_forts question_au_dessus = 0"
  by code_simp

lemma score_seuil:
  "score_chunk question_seuil [(''aaa'', 3), (''bbb'', 4)]
     [(''aaa'', 1), (''xxx'', 2), (''yyy'', 2), (''zzz'', 4)] = Inr (fl (12 / 100))"
  by (simp add: score_chunk_eq nb_mots_forts_seuil cosine_eval fl_exemples)

lemma score_au_dessus:
  "score_chunk question_au_dessus [(''aaa'', 4), (''bbb'', 3)]
     [(''aaa'', 1), (''xxx'', 2), (''yyy'', 2), (''zzz'', 4)] = Inr (fl (16 / 100))"
  by (simp add: score_chunk_eq nb_mots_forts_au_dessus cosine_eval fl_exemples)

lemma seuil_lt_016: "fl (12 / 100) < fl (16 / 100)"
  by (simp add: fl_exemples)

lemma py_round_016: "py_round (fl (16 / 100)) 3 = fl (16 / 100)"
  by (simp add: py_round_def fl_exemples round_half_even_def)

lemma tronquer_chunk_seuil:
  "tronquer ''aaa xxx xxx yyy yyy zzz zzz zzz zzz'' = ''aaa xxx xxx yyy yyy zzz zzz zzz zzz''"
  by code_simp

lemma tronquer_linux: "tronquer ''Linux'' = ''Linux''"
  by code_simp

lemma vec_question_limite:
  "nettoyer_et_vectoriser question_limite = [(''aaa'', 8), (''bbb'', 1)]"
  by code_simp

lemma vec_texte_limite:
  "nettoyer_et_vectoriser texte_limite = [(''bbb'', 39), (''xxx'', 10), (''yyy'', 2)]"
  by code_simp

lemma nb_mots_forts_limite: "nb_mots_forts question_limite = 0"
  by code_simp

lemma tronquer_limite: "tronquer texte_limite = texte_limite"
  by code_simp

lemma score_limite:
  "score_chunk question_limite [(''aaa'', 8), (''bbb'', 1)]
     [(''bbb'', 39), (''xxx'', 10), (''yyy'', 2)]
     = Inr (4323455642275677 / 36028797018963968)"
  by (simp add: score_chunk_eq nb_mots_forts_limite cosine_eval fl_exemples)

lemma seuil_lt_limite: "fl (12 / 100) < 4323455642275677 / 36028797018963968"
  by (simp add: fl_exemples)

lemma py_round_limite: "py_round (4323455642275677 / 36028797018963968) 3 = fl (12 / 100)"
  by (simp add: py_round_def fl_exemples round_half_even_def)

lemma vec_question_installer: "nettoyer_et_vectoriser question_installer = [(''installer'', 3)]"
  by code_simp

lemma vec_question_installer_linux:
  "nettoyer_et_vectoriser question_installer_linux = [(''installer'', 3), (''linux'', 4)]"
  by code_simp

lemma nb_mots_forts_installer:
  "nb_mots_forts question_installer = 0" "nb_mots_forts question_installer_linux = 1"
  by code_simp+

lemma score_installer:
  "score_chunk question_installer [(''installer'', 3)] [(''installer'', 1)] = Inr 1"
  by (simp add: score_chunk_eq nb_mots_forts_installer cosine_eval fl_exemples)

lemma score_installer_linux:
  "score_chunk question_installer_linux [(''installer'', 3), (''linux'', 4)] [(''installer'', 1)]
     = Inr (fl (78 / 100))"
  by (simp add: score_chunk_eq nb_mots_forts_installer cosine_eval fl_exemples)

lemma vec_question_arrondi:
  "nettoyer_et_vectoriser question_arrondi = [(''linux'', 1), (''bbb'', 1)]"
  by code_simp

lemma vec_arrondi_1: "nettoyer_et_vectoriser ''linux xxx'' = [(''linux'', 1), (''xxx'', 1)]"
  by code_simp

lemma vec_arrondi_2:
  "nettoyer_et_vectoriser ''linux linux linux xxx xxx xxx'' = [(''linux'', 3), (''xxx'', 3)]"
  by code_simp

lemma nb_mots_forts_arrondi: "nb_mots_forts question_arrondi = 1"
  by code_simp

lemma cosine_arrondi_1:
  "cosine_similarity [(''linux'', 1), (''bbb'', 1)] [(''linux'', 1), (''xxx'', 1)]
     = Inr (4503599627370495 / 9007199254740992)"
  by (simp add: cosine_eval fl_exemples)

lemma cosine_arrondi_2:
  "cosine_similarity [(''linux'', 1), (''bbb'', 1)] [(''linux'', 3), (''xxx'', 3)] = Inr (1 / 2)"
  by (simp add: cosine_eval fl_exemples)

lemma score_arrondi_1:
  "score_chunk question_arrondi [(''linux'', 1), (''bbb'', 1)] [(''linux'', 1), (''xxx'', 1)]
     = Inr (3062447746611937 / 4503599627370496)"
  by (simp add: score_chunk_eq nb_mots_forts_arrondi cosine_arrondi_1 fl_exemples)

lemma score_arrondi_2:
  "score_chunk question_arrondi [(''linux'', 1), (''bbb'', 1)] [(''linux'', 3), (''xxx'', 3)]
     = Inr (3062447746611937 / 4503599627370496)"
  by (simp add: score_chunk_eq nb_mots_forts_arrondi cosine_arrondi_2 fl_exemples)

lemma py_round_arrondi: "py_round (3062447746611937 / 4503599627370496) 3 = fl (68 / 100)"
  by (simp add: py_round_def fl_exemples round_half_even_def)

lemma tronquer_arrondi: "tronquer ''linux xxx'' = ''linux xxx''"
  by code_simp

lemma cosine_trois: "cosine_similarity vec_trois vec_trois = Inr (4503599627370497 / 2 ^ 52)"
  by (simp add: vec_trois_def cosine_eval fl_exemples)

lemma cosine_enorme: "cosine_similarity vec_enorme vec_enorme = Inl OverflowError"
  by (simp add: vec_enorme_def cosine_eval)

lemma vec_question_367:
  "nettoyer_et_vectoriser question_367
     = [(''linux'', 3), (''ppp'', 2), (''qqq'', 1), (''rrr'', 1), (''sss'', 1)]"
  by code_simp

lemma vec_chunk_367:
  "nettoyer_et_vectoriser ''linux ttt ttt ttt uuu uuu vvv www''
     = [(''linux'', 1), (''ttt'', 3), (''uuu'', 2), (''vvv'', 1), (''www'', 1)]"
  by code_simp

lemma nb_mots_forts_367: "nb_mots_forts question_367 = 1"
  by code_simp

lemma score_367:
  "score_chunk question_367
     [(''linux'', 3), (''ppp'', 2), (''qqq'', 1), (''rrr'', 1), (''sss'', 1)]
     [(''linux'', 1), (''ttt'', 3), (''uuu'', 2), (''vvv'', 1), (''www'', 1)]
     = Inr (6620291452234629 / 18014398509481984)"
  by (simp add: score_chunk_eq nb_mots_forts_367 cosine_eval fl_exemples)

lemma py_round_367: "py_round (6620291452234629 / 18014398509481984) 3 = fl (367 / 1000)"
  by (simp add: py_round_def fl_exemples round_half_even_def)

lemma seuil_lt_367: "fl (12 / 100) < 6620291452234629 / 18014398509481984"
  by (simp add: fl_exemples)

lemma tronquer_367:
  "tronquer ''linux ttt ttt ttt uuu uuu vvv www'' = ''linux ttt ttt ttt uuu uuu vvv www''"
  by code_simp
section \<open>What the query returns\<close>

lemma seuil_pos: "0 < fl (12 / 100)"
  by (simp add: fl_012)

lemma scores_definis:
  assumes "vecteurs_chunks chunks = Inr vecteurs" "entrees_python chunks q"
  shows "\<forall>v \<in> set vecteurs. \<exists>s. score_chunk q (nettoyer_et_vectoriser q) v = Inr s"
proof
  fix v
  assume "v \<in> set vecteurs"
  then obtain i where i: "i < length vecteurs" "v = vecteurs ! i"
    by (auto simp: in_set_conv_nth)
  from vecteurs_chunks_length [OF assms(1)] i(1) have ic: "i < length chunks" by simp
  from vecteurs_chunks_nth [OF assms(1) ic] obtain t
    where t: "c_text (chunks ! i) = Some t" "vecteurs ! i = nettoyer_et_vectoriser t" by blast
  from ic have "chunks ! i \<in> set chunks" by simp
  with assms(2) t(1) have "length t \<le> sys_maxsize" "length q \<le> sys_maxsize"
    by (auto simp: entrees_python_def)
  from score_chunk_defini [OF this(2,1)] i(2) t(2)
  show "\<exists>s. score_chunk q (nettoyer_et_vectoriser q) v = Inr s" by simp
qed

lemma boucle_definie:
  assumes "vecteurs_chunks chunks = Inr vecteurs" "entrees_python chunks q"
  shows "\<exists>ms mc. boucle q (nettoyer_et_vectoriser q) chunks 0 vecteurs (0, None) = Inr (ms, mc)"
proof -
  have "0 + length vecteurs \<le> length chunks"
    using vecteurs_chunks_length [OF assms(1)] by simp
  from boucle_total [OF this scores_definis [OF assms], of "(0, None)"] show ?thesis by auto
qed

lemma boucle_jamais_index:
  assumes "vecteurs_chunks chunks = Inr vecteurs"
  shows "boucle q vq chunks 0 vecteurs (0, None) = Inl e \<Longrightarrow> e = OverflowError"
proof -
  assume err: "boucle q vq chunks 0 vecteurs (0, None) = Inl e"
  have "0 + length vecteurs \<le> length chunks"
    using vecteurs_chunks_length [OF assms] by simp
  from boucle_erreur [OF err this] obtain v where "score_chunk q vq v = Inl e" by blast
  then have "cosine_similarity vq v = Inl e"
    by (auto simp: score_chunk_eq split: sum.splits)
  then show ?thesis
    unfolding cosine_similarity_def Let_def float_of_int_def
    by (auto split: if_splits sum.splits)
qed

lemma corps_match:
  assumes "vecteurs_chunks chunks = Inr vecteurs" "entrees_python chunks q"
    and "\<exists>v \<in> set vecteurs. \<exists>s. score_chunk q (nettoyer_et_vectoriser q) v = Inr s
           \<and> fl (12 / 100) < s"
  shows "\<exists>k < length chunks. \<exists>ms t. c_text (chunks ! k) = Some t
           \<and> score_chunk q (nettoyer_et_vectoriser q) (vecteurs ! k) = Inr ms
           \<and> fl (12 / 100) < ms
           \<and> (\<forall>j < length chunks.
                 \<exists>s. score_chunk q (nettoyer_et_vectoriser q) (vecteurs ! j) = Inr s \<and> s \<le> ms)
           \<and> (\<forall>j < k.
                 \<exists>s. score_chunk q (nettoyer_et_vectoriser q) (vecteurs ! j) = Inr s \<and> s < ms)
           \<and> chercher_dans_nird_corps chunks vecteurs now q
               = reponse_finale q now (ms, Some (chunks ! k))"
proof -
  let ?vq = "nettoyer_et_vectoriser q"
  have len: "length vecteurs = length chunks"
    using assms(1) by (rule vecteurs_chunks_length)
  from boucle_definie [OF assms(1,2)] obtain ms mc
    where run: "boucle q ?vq chunks 0 vecteurs (0, None) = Inr (ms, mc)" by blast
  from boucle_resultat [OF assms(1) run]
  have le: "\<forall>j < length chunks. \<exists>s. score_chunk q ?vq (vecteurs ! j) = Inr s \<and> s \<le> ms"
    and alt: "ms = 0 \<and> mc = None
              \<or> 0 < ms \<and> (\<exists>k < length chunks. mc = Some (chunks ! k)
                    \<and> score_chunk q ?vq (vecteurs ! k) = Inr ms
                    \<and> (\<forall>j < k. \<exists>s. score_chunk q ?vq (vecteurs ! j) = Inr s \<and> s < ms))"
    by simp_all
  from assms(3) obtain v s where v: "v \<in> set vecteurs" "score_chunk q ?vq v = Inr s"
    "fl (12 / 100) < s" by blast
  from v(1) len obtain j where "j < length chunks" "v = vecteurs ! j"
    by (auto simp: in_set_conv_nth)
  with le v(2) have "s \<le> ms" by fastforce
  with v(3) have big: "fl (12 / 100) < ms" by simp
  with seuil_pos have "ms \<noteq> 0" by simp
  with alt obtain k where k: "k < length chunks" "mc = Some (chunks ! k)"
    "score_chunk q ?vq (vecteurs ! k) = Inr ms"
    "\<forall>j < k. \<exists>s. score_chunk q ?vq (vecteurs ! j) = Inr s \<and> s < ms"
    by blast
  from vecteurs_chunks_nth [OF assms(1) k(1)] obtain t where t: "c_text (chunks ! k) = Some t"
    by blast
  have "chercher_dans_nird_corps chunks vecteurs now q = reponse_finale q now (ms, Some (chunks ! k))"
    using run k(2) by (simp add: chercher_dans_nird_corps_def)
  with k(1,3,4) t big le show ?thesis by blast
qed

lemma corps_defaut:
  assumes "vecteurs_chunks chunks = Inr vecteurs" "entrees_python chunks q"
    and "\<not> (\<exists>v \<in> set vecteurs. \<exists>s. score_chunk q (nettoyer_et_vectoriser q) v = Inr s
           \<and> fl (12 / 100) < s)"
  shows "chercher_dans_nird_corps chunks vecteurs now q = Inr (reponse_defaut q now)"
proof -
  let ?vq = "nettoyer_et_vectoriser q"
  have len: "length vecteurs = length chunks"
    using assms(1) by (rule vecteurs_chunks_length)
  from boucle_definie [OF assms(1,2)] obtain ms mc
    where run: "boucle q ?vq chunks 0 vecteurs (0, None) = Inr (ms, mc)" by blast
  from boucle_resultat [OF assms(1) run]
  have alt: "ms = 0 \<and> mc = None
              \<or> 0 < ms \<and> (\<exists>k < length chunks. mc = Some (chunks ! k)
                    \<and> score_chunk q ?vq (vecteurs ! k) = Inr ms
                    \<and> (\<forall>j < k. \<exists>s. score_chunk q ?vq (vecteurs ! j) = Inr s \<and> s < ms))"
    by simp
  have "\<not> fl (12 / 100) < ms"
    using alt
  proof
    assume "ms = 0 \<and> mc = None"
    with seuil_pos show ?thesis by simp
  next
    assume "0 < ms \<and> (\<exists>k < length chunks. mc = Some (chunks ! k)
                    \<and> score_chunk q ?vq (vecteurs ! k) = Inr ms
                    \<and> (\<forall>j < k. \<exists>s. score_chunk q ?vq (vecteurs ! j) = Inr s \<and> s < ms))"
    then obtain k where "k < length chunks" "score_chunk q ?vq (vecteurs ! k) = Inr ms" by blast
    with len have "vecteurs ! k \<in> set vecteurs" "score_chunk q ?vq (vecteurs ! k) = Inr ms"
      by simp_all
    with assms(3) show ?thesis by blast
  qed
  then have "reponse_finale q now (ms, mc) = Inr (reponse_defaut q now)"
    by (simp add: reponse_finale_def)
  with run show ?thesis by (simp add: chercher_dans_nird_corps_def)
qed

lemma corps_Inr:
  assumes "vecteurs_chunks chunks = Inr vecteurs"
    and "chercher_dans_nird_corps chunks vecteurs now q = Inr r"
  shows "\<exists>ms mc. boucle q (nettoyer_et_vectoriser q) chunks 0 vecteurs (0, None) = Inr (ms, mc)
           \<and> reponse_finale q now (ms, mc) = Inr r
           \<and> (ms = 0 \<and> mc = None
                \<or> 0 < ms \<and> (\<exists>k < length chunks. mc = Some (chunks ! k)
                      \<and> score_chunk q (nettoyer_et_vectoriser q) (vecteurs ! k) = Inr ms))"
proof -
  let ?vq = "nettoyer_et_vectoriser q"
  from assms(2) obtain ms mc
    where run: "boucle q ?vq chunks 0 vecteurs (0, None) = Inr (ms, mc)"
      and fin: "reponse_finale q now (ms, mc) = Inr r"
    by (cases "boucle q ?vq chunks 0 vecteurs (0, None)")
      (auto simp: chercher_dans_nird_corps_def)
  from boucle_resultat [OF assms(1) run] run fin show ?thesis by blast
qed

section \<open>Cutting the text of the answer\<close>

lemma rsplit1_dernier:
  assumes "sep \<in> set s"
  shows "\<exists>w. s = hd (rsplit1 sep s) @ sep # w \<and> sep \<notin> set w"
proof -
  let ?w = "takeWhile (\<lambda>c. c \<noteq> sep) (rev s)"
  let ?d = "dropWhile (\<lambda>c. c \<noteq> sep) (rev s)"
  from assms have "?d \<noteq> []" by (auto simp: dropWhile_eq_Nil_conv)
  moreover from this have "hd ?d = sep" using hd_dropWhile [of "\<lambda>c. c \<noteq> sep" "rev s"] by simp
  ultimately have d: "?d = sep # tl ?d" by (cases ?d) auto
  have "rev s = ?w @ ?d" by simp
  then have "rev s = ?w @ sep # tl ?d" using d by simp
  then have "rev (rev s) = rev (?w @ sep # tl ?d)" by (rule arg_cong)
  then have "s = rev (tl ?d) @ sep # rev ?w" by simp
  moreover have "sep \<notin> set (rev ?w)" by (auto dest: set_takeWhileD)
  moreover have "hd (rsplit1 sep s) = rev (tl ?d)" using assms by (simp add: rsplit1_def)
  ultimately show ?thesis by metis
qed

lemma rsplit1_position:
  assumes "n \<le> length s" "sep \<in> set (take n s)"
  shows "\<exists>p < n. s ! p = sep \<and> (\<forall>i < n. p < i \<longrightarrow> s ! i \<noteq> sep)
           \<and> hd (rsplit1 sep (take n s)) = take p s"
proof -
  define x where "x = take n s"
  have len: "length x = n" using assms(1) by (simp add: x_def)
  have nth: "x ! i = s ! i" if "i < n" for i
    using that by (simp add: x_def)
  from rsplit1_dernier [OF assms(2)] obtain w
    where w: "x = hd (rsplit1 sep x) @ sep # w" "sep \<notin> set w"
    unfolding x_def by blast
  define pre where "pre = hd (rsplit1 sep x)"
  from w have xw: "x = pre @ sep # w" by (simp add: pre_def)
  from xw have "length x = length pre + Suc (length w)" by (metis length_append length_Cons)
  with len have n: "n = length pre + Suc (length w)" by simp
  then have p: "length pre < n" by simp
  have "x ! length pre = sep" by (subst xw) simp
  with nth [OF p] have sp: "s ! length pre = sep" by simp
  have after: "s ! i \<noteq> sep" if "i < n" "length pre < i" for i
  proof -
    from that(2) obtain j where j: "i = length pre + Suc j"
      by (metis less_iff_Suc_add add_Suc_right)
    with that(1) n have jw: "j < length w" by simp
    have "x ! i = (pre @ sep # w) ! (length pre + Suc j)" using xw j by simp
    also have "\<dots> = w ! j" by (simp only: nth_append_length_plus nth_Cons_Suc)
    finally have "x ! i \<in> set w" using jw by simp
    with w(2) nth [OF that(1)] show ?thesis by metis
  qed
  have "take (length pre) x = pre" by (subst xw) simp
  moreover have "take (length pre) x = take (length pre) s"
    using p by (simp add: x_def min_def)
  ultimately have "hd (rsplit1 sep (take n s)) = take (length pre) s"
    by (simp add: pre_def x_def)
  with p sp after show ?thesis by blast
qed

lemma tronquer_coupe:
  "let s = strip t in
     if length s \<le> 600 then tronquer t = s
     else if \<exists>p < 600. s ! p = CHR '' ''
          then \<exists>p < 600. s ! p = CHR '' '' \<and> (\<forall>i < 600. p < i \<longrightarrow> s ! i \<noteq> CHR '' '')
                 \<and> tronquer t = take p s @ ''...''
          else tronquer t = take 600 s @ ''...''"
proof -
  define s where "s = strip t"
  define n :: nat where "n = 600"
  have tr: "tronquer t = (if n < length s then hd (rsplit1 CHR '' '' (take n s)) @ ''...'' else s)"
    by (simp add: tronquer_def s_def n_def Let_def)
  have goal: "if length s \<le> n then tronquer t = s
     else if \<exists>p < n. s ! p = CHR '' ''
          then \<exists>p < n. s ! p = CHR '' '' \<and> (\<forall>i < n. p < i \<longrightarrow> s ! i \<noteq> CHR '' '')
                 \<and> tronquer t = take p s @ ''...''
          else tronquer t = take n s @ ''...''"
  proof (cases "length s \<le> n")
    case True
    then show ?thesis by (simp add: tr)
  next
    case False
    then have le: "n \<le> length s" and lt: "n < length s" by simp_all
    have mem: "CHR '' '' \<in> set (take n s) \<longleftrightarrow> (\<exists>p < n. s ! p = CHR '' '')"
      using le by (auto simp: in_set_conv_nth)
    show ?thesis
    proof (cases "CHR '' '' \<in> set (take n s)")
      case True
      from rsplit1_position [OF le True] obtain p where p: "p < n" "s ! p = CHR '' ''"
        "\<forall>i < n. p < i \<longrightarrow> s ! i \<noteq> CHR '' ''"
        "hd (rsplit1 CHR '' '' (take n s)) = take p s"
        by blast
      from p(4) lt have "tronquer t = take p s @ ''...''" by (simp add: tr)
      with p(1-3) have "\<exists>p < n. s ! p = CHR '' '' \<and> (\<forall>i < n. p < i \<longrightarrow> s ! i \<noteq> CHR '' '')
                 \<and> tronquer t = take p s @ ''...''"
        by blast
      moreover from True mem have "\<exists>p < n. s ! p = CHR '' ''" by simp
      ultimately show ?thesis using False by (simp only: if_False if_True)
    next
      case no: False
      then have "tronquer t = take n s @ ''...''"
        using lt by (simp add: tr rsplit1_def)
      moreover from no mem have "\<not> (\<exists>p < n. s ! p = CHR '' '')" by simp
      ultimately show ?thesis using False by (simp only: if_False)
    qed
  qed
  then show ?thesis unfolding n_def s_def Let_def .
qed

section \<open>The long example texts, evaluated\<close>

lemma vec_texte_long:
  "nettoyer_et_vectoriser texte_long
     = [(replicate 590 CHR ''a'', 1), (replicate 59 CHR ''b'', 1)]"
  by code_simp

lemma vec_texte_saut:
  "nettoyer_et_vectoriser texte_saut
     = [(replicate 590 CHR ''a'', 1), (replicate 59 CHR ''b'', 1)]"
  by code_simp

lemma vec_linux_espace: "nettoyer_et_vectoriser ''Linux '' = [(''linux'', 1)]"
  by code_simp

lemma communs_long:
  "filter (\<lambda>w. w \<in> set (map fst [(replicate 590 CHR ''a'', 1 :: int), (replicate 59 CHR ''b'', 1)]))
     (remdups (map fst [(''linux'', 1 :: int)])) = []"
  by code_simp

lemma cosine_long:
  "cosine_similarity [(''linux'', 1)]
     [(replicate 590 CHR ''a'', 1), (replicate 59 CHR ''b'', 1)] = Inr 0"
  unfolding cosine_similarity_def Let_def communs_long by simp

lemma score_long:
  "score_chunk ''linux'' [(''linux'', 1)]
     [(replicate 590 CHR ''a'', 1), (replicate 59 CHR ''b'', 1)] = Inr (fl (18 / 100))"
  by (simp add: score_chunk_eq cosine_long nb_mots_forts_linux fl_exemples)

lemma tronquer_long: "tronquer texte_long = replicate 590 CHR ''a'' @ ''...''"
  by code_simp

lemma tronquer_saut: "tronquer texte_saut = take 600 texte_saut @ ''...''"
  by code_simp

lemma tronquer_espace: "tronquer ''Linux '' = ''Linux''"
  by code_simp

lemma py_round_18: "py_round (fl (18 / 100)) 3 = fl (18 / 100)"
  by (simp add: py_round_def fl_exemples round_half_even_def)

lemma seuil_lt_018: "fl (12 / 100) < fl (18 / 100)"
  by (simp add: fl_exemples)

lemma reponse_long_eval:
  "chercher_dans_nird_corps [chunk_long] [nettoyer_et_vectoriser texte_long] ''t'' ''linux''
     = Inr reponse_long"
  by (simp add: chercher_dans_nird_corps_def vec_q_linux vec_texte_long score_long Let_def
      reponse_finale_def chunk_long_def tronquer_long py_round_def round_half_even_def fl_exemples reponse_long_def)

lemma reponse_saut_eval:
  "chercher_dans_nird_corps [chunk_saut] [nettoyer_et_vectoriser texte_saut] ''t'' ''linux''
     = Inr reponse_saut"
  by (simp add: chercher_dans_nird_corps_def vec_q_linux vec_texte_saut score_long Let_def
      reponse_finale_def chunk_saut_def tronquer_saut py_round_def round_half_even_def fl_exemples reponse_saut_def)

lemma reponse_espace_eval:
  "chercher_dans_nird_corps [chunk_espace] [nettoyer_et_vectoriser ''Linux ''] ''t'' ''linux''
     = Inr reponse_espace"
  by (simp add: chercher_dans_nird_corps_def vec_q_linux vec_linux_espace score_linux Let_def
      reponse_finale_def chunk_espace_def tronquer_espace py_round_def round_half_even_def fl_exemples
      reponse_espace_def)

lemma texte_saut_faits:
  "length texte_saut = 650 \<and> isspace_chr (texte_saut ! 590)
   \<and> is_word_chr (texte_saut ! 599) \<and> is_word_chr (texte_saut ! 600)
   \<and> take 600 texte_saut \<noteq> take 590 texte_saut"
  by code_simp

lemma reponse_linux:
  "chercher_dans_nird_corps [chunk_linux] [[(''linux'', 1)]] ''t'' ''linux''
     = Inr \<lparr>question = ''linux'', contexte = ''Linux'', confiance = fl (118 / 100), chunk_id = 1,
            source_url = ''https://x'', source_title = ''A'', timestamp = ''t''\<rparr>"
  by (simp add: chercher_dans_nird_corps_def vec_q_linux score_linux Let_def reponse_finale_def
      chunk_linux_def tronquer_linux py_round_def round_half_even_def fl_exemples)
section \<open>The bonus, from below\<close>

lemma bonus_pas_bas:
  assumes "0 \<le> s" "s \<le> 3"
  shows "s + (18 / 100 - 1 / 10 ^ 12) \<le> fl (s + fl (18 / 100))"
proof -
  define B :: real where "B = 6485183463413514 / 2 ^ 55"
  have B: "fl (18 / 100) = B" by (simp add: fl_018 B_def)
  define e :: real where "e = 1 / 2 ^ 53"
  have x: "1 / 10 \<le> s + B" using assms(1) by (simp add: B_def)
  have se: "s * e \<le> 3 * e" using assms(2) by (simp add: e_def)
  from fl_minoration_petit [OF x] have "(s + B) * (1 - e) \<le> fl (s + B)" by (simp add: e_def)
  moreover have "(s + B) * (1 - e) = s + (B - B * e) - s * e" by (simp add: algebra_simps)
  moreover have "18 / 100 - 1 / 10 ^ 12 \<le> (B - B * e) - 3 * e" by (simp add: B_def e_def)
  ultimately have "s + (18 / 100 - 1 / 10 ^ 12) \<le> fl (s + B)" using se by linarith
  then show ?thesis by (simp only: B)
qed

lemma bonus_iter_bas:
  assumes "0 \<le> a"
  shows "a + real k * (18 / 100 + 1 / 10 ^ 12) \<le> 3 \<Longrightarrow>
         a + real k * (18 / 100 - 1 / 10 ^ 12) \<le> ((\<lambda>s. fl (s + fl (18 / 100))) ^^ k) a"
proof (induction k)
  case 0
  then show ?case by simp
next
  case (Suc k)
  let ?f = "\<lambda>s. fl (s + fl (18 / 100))"
  have eq: "real (Suc k) * c = real k * c + c" for c :: real by (simp add: algebra_simps)
  from Suc.prems have le: "a + real k * (18 / 100 + 1 / 10 ^ 12) \<le> 3"
    unfolding eq by simp
  from bonus_iter [OF assms le] have r: "a \<le> (?f ^^ k) a"
    "(?f ^^ k) a \<le> a + real k * (18 / 100 + 1 / 10 ^ 12)" by simp_all
  with assms le have "0 \<le> (?f ^^ k) a" "(?f ^^ k) a \<le> 3" by linarith+
  from bonus_pas_bas [OF this] Suc.IH [OF le] show ?case unfolding eq by simp
qed

text \<open>The score of a chunk of the corpus, from its cosine similarity.\<close>

lemma score_chunk_cosine:
  assumes "score_chunk q (nettoyer_et_vectoriser q) (nettoyer_et_vectoriser t) = Inr s"
  shows "\<exists>c. cosine_similarity (nettoyer_et_vectoriser q) (nettoyer_et_vectoriser t) = Inr c
           \<and> 0 \<le> c
           \<and> s = ((\<lambda>s. fl (s + fl (18 / 100))) ^^ nb_mots_forts q) c
           \<and> c + real (nb_mots_forts q) * (18 / 100 - 1 / 10 ^ 12) \<le> s
           \<and> s \<le> c + real (nb_mots_forts q) * (18 / 100 + 1 / 10 ^ 12)"
proof -
  let ?f = "\<lambda>s. fl (s + fl (18 / 100))"
  from assms obtain c
    where c: "cosine_similarity (nettoyer_et_vectoriser q) (nettoyer_et_vectoriser t) = Inr c"
      and s: "s = (?f ^^ nb_mots_forts q) c"
    by (auto simp: score_chunk_eq split: sum.splits)
  from cosine_similarity_bornes [OF c nettoyer_et_vectoriser_distinct
      nettoyer_et_vectoriser_distinct nettoyer_nonneg nettoyer_nonneg]
  have cb: "0 \<le> c" "c \<le> 1 + 1 / 2 ^ 50" .
  have "nb_mots_forts q \<le> length mots_forts"
    unfolding nb_mots_forts_def by (rule length_filter_le)
  also have "length mots_forts = 11" by (simp add: mots_forts_def)
  finally have "real (nb_mots_forts q) \<le> 11" by simp
  then have "real (nb_mots_forts q) * (18 / 100 + 1 / 10 ^ 12) \<le> 11 * (18 / 100 + 1 / 10 ^ 12)"
    by (intro mult_right_mono) simp_all
  moreover have "c + 11 * (18 / 100 + 1 / 10 ^ 12) \<le> 3"
    using cb(2) by simp
  ultimately have tot: "c + real (nb_mots_forts q) * (18 / 100 + 1 / 10 ^ 12) \<le> 3"
    by linarith
  from bonus_iter [OF cb(1) tot] bonus_iter_bas [OF cb(1) tot] c cb(1) s
  show ?thesis by simp
qed

lemma score_chunk_croissant:
  assumes "cosine_similarity vq v = Inr c" "cosine_similarity vq v' = Inr c'"
    and "score_chunk q vq v = Inr s" "score_chunk q vq v' = Inr s'"
    and "0 \<le> c" "c \<le> c'"
  shows "s \<le> s'"
proof -
  from assms(1,3) have "s = ((\<lambda>s. fl (s + fl (18 / 100))) ^^ nb_mots_forts q) c"
    by (simp add: score_chunk_eq)
  moreover from assms(2,4) have "s' = ((\<lambda>s. fl (s + fl (18 / 100))) ^^ nb_mots_forts q) c'"
    by (simp add: score_chunk_eq)
  ultimately show ?thesis using bonus_mono [OF assms(5,6), of "nb_mots_forts q"] by simp
qed

text \<open>The answer built from a chunk whose score is above the threshold.\<close>

lemma reponse_finale_match:
  assumes "fl (12 / 100) < ms" "c_text c = Some t"
  shows "reponse_finale q now (ms, Some c) =
     (case c_chunk_id c of
        None \<Rightarrow> Inl (KeyError ''chunk_id'')
      | Some cid \<Rightarrow>
         (case c_source_url c of
            None \<Rightarrow> Inl (KeyError ''source_url'')
          | Some url \<Rightarrow>
             (case c_source_title c of
                None \<Rightarrow> Inl (KeyError ''source_title'')
              | Some title \<Rightarrow>
                 Inr \<lparr>question = q, contexte = tronquer t, confiance = py_round ms 3,
                      chunk_id = cid, source_url = url, source_title = title,
                      timestamp = now\<rparr>)))"
  using assms by (simp add: reponse_finale_def)

lemma entrees_python_petit:
  "length q \<le> 1000 \<Longrightarrow> \<forall>c \<in> set chunks. \<forall>t. c_text c = Some t \<longrightarrow> length t \<le> 1000 \<Longrightarrow>
   entrees_python chunks q"
  unfolding entrees_python_def sys_maxsize_def by fastforce
section \<open>Safety of the answer\<close>

text \<open>
  C10: with the index built from the corpus, whenever the loop ends with a tracked maximum
  score above 0.12, the tracked best chunk is a chunk of the corpus, never the initial
  \<open>None\<close>: the query cannot fail on subscripting \<open>None\<close> (\<open>TypeError\<close>) nor on
  \<open>chunks[i]\<close> out of range (\<open>IndexError\<close>). And the loop does end with a maximum and a
  best chunk for every question and corpus of strings that Python can hold.
\<close>

theorem C10_meilleur_chunk_defined:
  assumes "vecteurs_chunks chunks = Inr vecteurs"
  shows "(\<forall>ms mc. boucle q (nettoyer_et_vectoriser q) chunks 0 vecteurs (0, None) = Inr (ms, mc)
            \<longrightarrow> fl (12 / 100) < ms \<longrightarrow> (\<exists>c \<in> set chunks. mc = Some c))
         \<and> boucle q (nettoyer_et_vectoriser q) chunks 0 vecteurs (0, None) \<noteq> Inl TypeError
         \<and> boucle q (nettoyer_et_vectoriser q) chunks 0 vecteurs (0, None) \<noteq> Inl IndexError
         \<and> chercher_dans_nird_corps chunks vecteurs now q \<noteq> Inl TypeError
         \<and> chercher_dans_nird_corps chunks vecteurs now q \<noteq> Inl IndexError
         \<and> (entrees_python chunks q \<longrightarrow>
              (\<exists>ms mc. boucle q (nettoyer_et_vectoriser q) chunks 0 vecteurs (0, None)
                         = Inr (ms, mc)))"
proof -
  let ?vq = "nettoyer_et_vectoriser q"
  let ?run = "boucle q ?vq chunks 0 vecteurs (0, None)"
  have some: "\<exists>c \<in> set chunks. mc = Some c"
    if run: "?run = Inr (ms, mc)" and big: "fl (12 / 100) < ms" for ms mc
  proof -
    from big seuil_pos have "ms \<noteq> 0" by simp
    with boucle_resultat [OF assms run]
    obtain k where "k < length chunks" "mc = Some (chunks ! k)" by blast
    then show ?thesis by auto
  qed
  have err: "e = OverflowError" if "?run = Inl e" for e
    using boucle_jamais_index [OF assms that] .
  have b1: "?run \<noteq> Inl TypeError" and b2: "?run \<noteq> Inl IndexError"
    using err by fastforce+
  have c1: "chercher_dans_nird_corps chunks vecteurs now q \<noteq> Inl TypeError"
  proof (cases ?run)
    case (Inl e)
    with err have "e = OverflowError" by simp
    with Inl show ?thesis by (simp add: chercher_dans_nird_corps_def)
  next
    case (Inr st)
    obtain ms mc where st: "st = (ms, mc)" by (cases st)
    from some [of ms mc] Inr st have "fl (12 / 100) < ms \<longrightarrow> (\<exists>c. mc = Some c)" by auto
    then have "reponse_finale q now (ms, mc) \<noteq> Inl TypeError"
      by (auto simp: reponse_finale_def split: option.splits)
    with Inr st show ?thesis by (simp add: chercher_dans_nird_corps_def)
  qed
  have c2: "chercher_dans_nird_corps chunks vecteurs now q \<noteq> Inl IndexError"
  proof (cases ?run)
    case (Inl e)
    with err have "e = OverflowError" by simp
    with Inl show ?thesis by (simp add: chercher_dans_nird_corps_def)
  next
    case (Inr st)
    obtain ms mc where st: "st = (ms, mc)" by (cases st)
    have "reponse_finale q now (ms, mc) \<noteq> Inl IndexError"
      by (auto simp: reponse_finale_def split: option.splits)
    with Inr st show ?thesis by (simp add: chercher_dans_nird_corps_def)
  qed
  from some b1 b2 c1 c2 boucle_definie [OF assms] show ?thesis by blast
qed

theorem C10_meilleur_chunk_defined_witness:
  "vecteurs_chunks [chunk_linux] = Inr [nettoyer_et_vectoriser ''Linux'']
   \<and> entrees_python [chunk_linux] ''linux''
   \<and> boucle ''linux'' (nettoyer_et_vectoriser ''linux'') [chunk_linux] 0
        [nettoyer_et_vectoriser ''Linux''] (0, None) = Inr (fl (118 / 100), Some chunk_linux)
   \<and> fl (12 / 100) < fl (118 / 100)
   \<and> (\<exists>c \<in> set [chunk_linux]. Some chunk_linux = Some c)
   \<and> chercher_dans_nird_corps [chunk_linux] [nettoyer_et_vectoriser ''Linux''] ''t'' ''linux''
       \<noteq> Inl TypeError"
proof -
  have h: "vecteurs_chunks [chunk_linux] = Inr [nettoyer_et_vectoriser ''Linux'']"
    by (simp add: chunk_linux_def)
  have e: "entrees_python [chunk_linux] ''linux''"
    by (simp add: entrees_python_def chunk_linux_def sys_maxsize_def)
  have run: "boucle ''linux'' (nettoyer_et_vectoriser ''linux'') [chunk_linux] 0
        [nettoyer_et_vectoriser ''Linux''] (0, None) = Inr (fl (118 / 100), Some chunk_linux)"
    using seuil_lt_118 seuil_pos by (simp add: vec_q_linux vec_linux score_linux)
  from C10_meilleur_chunk_defined [OF h, of "''linux''" "''t''"] run seuil_lt_118
  have "(\<exists>c \<in> set [chunk_linux]. Some chunk_linux = Some c)
    \<and> chercher_dans_nird_corps [chunk_linux] [nettoyer_et_vectoriser ''Linux''] ''t'' ''linux''
       \<noteq> Inl TypeError"
    by blast
  with h e run seuil_lt_118 show ?thesis by blast
qed
section \<open>Ties\<close>

text \<open>
  C6: the loop compares with a strict \<open>>\<close> in corpus order. When some entry scores above
  the threshold, the query answers with the text, the identifier and the source of the
  first chunk of the corpus that reaches the maximal score: every entry scores at most as
  much, every earlier entry scores strictly less, and no entry with the same score, or
  with the same term vector, comes before it. In the witness two chunks have the same
  term vector and the answer carries the identifier of the first.
\<close>

theorem C6_premier_en_cas_d_egalite:
  assumes "vecteurs_chunks chunks = Inr vecteurs"
    and "entrees_python chunks q"
    and "\<forall>c \<in> set chunks.
           c_chunk_id c \<noteq> None \<and> c_source_url c \<noteq> None \<and> c_source_title c \<noteq> None"
    and "\<exists>v \<in> set vecteurs. \<exists>s. score_chunk q (nettoyer_et_vectoriser q) v = Inr s
           \<and> fl (12 / 100) < s"
  shows "\<exists>k < length chunks. \<exists>ms t cid url title.
           c_text (chunks ! k) = Some t \<and> c_chunk_id (chunks ! k) = Some cid
           \<and> c_source_url (chunks ! k) = Some url
           \<and> c_source_title (chunks ! k) = Some title
           \<and> score_chunk q (nettoyer_et_vectoriser q) (vecteurs ! k) = Inr ms
           \<and> (\<forall>j < length chunks.
                 \<exists>s. score_chunk q (nettoyer_et_vectoriser q) (vecteurs ! j) = Inr s \<and> s \<le> ms)
           \<and> (\<forall>j < k.
                 \<exists>s. score_chunk q (nettoyer_et_vectoriser q) (vecteurs ! j) = Inr s \<and> s < ms)
           \<and> (\<forall>j < length chunks.
                 score_chunk q (nettoyer_et_vectoriser q) (vecteurs ! j) = Inr ms \<longrightarrow> k \<le> j)
           \<and> (\<forall>j < length chunks. vecteurs ! j = vecteurs ! k \<longrightarrow> k \<le> j)
           \<and> chercher_dans_nird_corps chunks vecteurs now q
               = Inr \<lparr>question = q, contexte = tronquer t, confiance = py_round ms 3,
                      chunk_id = cid, source_url = url, source_title = title,
                      timestamp = now\<rparr>"
proof -
  let ?vq = "nettoyer_et_vectoriser q"
  from corps_match [OF assms(1,2,4), of now]
  obtain k ms t where k: "k < length chunks" "c_text (chunks ! k) = Some t"
    "score_chunk q ?vq (vecteurs ! k) = Inr ms" "fl (12 / 100) < ms"
    "\<forall>j < length chunks. \<exists>s. score_chunk q ?vq (vecteurs ! j) = Inr s \<and> s \<le> ms"
    "\<forall>j < k. \<exists>s. score_chunk q ?vq (vecteurs ! j) = Inr s \<and> s < ms"
    "chercher_dans_nird_corps chunks vecteurs now q
       = reponse_finale q now (ms, Some (chunks ! k))"
    by blast
  from assms(3) k(1) obtain cid url title where f: "c_chunk_id (chunks ! k) = Some cid"
    "c_source_url (chunks ! k) = Some url" "c_source_title (chunks ! k) = Some title"
    by (metis nth_mem option.exhaust)
  have res: "chercher_dans_nird_corps chunks vecteurs now q
          = Inr \<lparr>question = q, contexte = tronquer t, confiance = py_round ms 3,
                 chunk_id = cid, source_url = url, source_title = title, timestamp = now\<rparr>"
    unfolding k(7) reponse_finale_match [OF k(4) k(2)] by (simp add: f)
  have first: "k \<le> j" if "score_chunk q ?vq (vecteurs ! j) = Inr ms" for j
  proof (rule ccontr)
    assume "\<not> k \<le> j"
    then have "j < k" by simp
    with k(6) obtain s where "score_chunk q ?vq (vecteurs ! j) = Inr s" "s < ms" by blast
    with that show False by simp
  qed
  have same: "k \<le> j" if "vecteurs ! j = vecteurs ! k" for j
    using first [of j] k(3) that by simp
  from k(1-3,5,6) f res first same show ?thesis by blast
qed

theorem C6_premier_en_cas_d_egalite_witness:
  "vecteurs_chunks [chunk_linux, chunk_linux_bis] = Inr [[(''linux'', 1)], [(''linux'', 1)]]
   \<and> score_chunk ''linux'' (nettoyer_et_vectoriser ''linux'')
        ([[(''linux'', 1)], [(''linux'', 1)]] ! 0) = Inr (fl (118 / 100))
   \<and> score_chunk ''linux'' (nettoyer_et_vectoriser ''linux'')
        ([[(''linux'', 1)], [(''linux'', 1)]] ! 1) = Inr (fl (118 / 100))
   \<and> chercher_dans_nird_corps [chunk_linux, chunk_linux_bis]
        [[(''linux'', 1)], [(''linux'', 1)]] ''t'' ''linux''
       = Inr \<lparr>question = ''linux'', contexte = ''Linux'', confiance = fl (118 / 100),
              chunk_id = 1, source_url = ''https://x'', source_title = ''A'',
              timestamp = ''t''\<rparr>"
proof -
  let ?chunks = "[chunk_linux, chunk_linux_bis]"
  let ?vecs = "[[(''linux'', 1 :: int)], [(''linux'', 1)]]"
  let ?vq = "nettoyer_et_vectoriser ''linux''"
  have h: "vecteurs_chunks ?chunks = Inr ?vecs"
    by (simp add: chunk_linux_def chunk_linux_bis_def vec_linux vec_linux_bis)
  have e: "entrees_python ?chunks ''linux''"
    by (rule entrees_python_petit) (auto simp: chunk_linux_def chunk_linux_bis_def)
  have m: "\<forall>c \<in> set ?chunks.
      c_chunk_id c \<noteq> None \<and> c_source_url c \<noteq> None \<and> c_source_title c \<noteq> None"
    by (simp add: chunk_linux_def chunk_linux_bis_def)
  have s: "score_chunk ''linux'' ?vq [(''linux'', 1)] = Inr (fl (118 / 100))"
    by (simp only: vec_q_linux score_linux)
  have c: "\<exists>v \<in> set ?vecs. \<exists>s. score_chunk ''linux'' ?vq v = Inr s \<and> fl (12 / 100) < s"
    using s seuil_lt_118
    by (intro bexI [of _ "[(''linux'', 1)]"] exI [of _ "fl (118 / 100)"]) simp_all
  from C6_premier_en_cas_d_egalite [OF h e m c, of "''t''"]
  obtain k ms t cid url title where k: "k < length ?chunks"
    and f: "c_text (?chunks ! k) = Some t" "c_chunk_id (?chunks ! k) = Some cid"
      "c_source_url (?chunks ! k) = Some url" "c_source_title (?chunks ! k) = Some title"
    and sc: "score_chunk ''linux'' ?vq (?vecs ! k) = Inr ms"
    and same: "\<forall>j < length ?chunks. ?vecs ! j = ?vecs ! k \<longrightarrow> k \<le> j"
    and res: "chercher_dans_nird_corps ?chunks ?vecs ''t'' ''linux''
       = Inr \<lparr>question = ''linux'', contexte = tronquer t, confiance = py_round ms 3,
              chunk_id = cid, source_url = url, source_title = title, timestamp = ''t''\<rparr>"
    by blast
  from k have "k = 0 \<or> k = 1" by auto
  then have "?vecs ! 0 = ?vecs ! k" by auto
  with same [rule_format, of 0] have k0: "k = 0" by simp
  from sc s have ms: "ms = fl (118 / 100)" by (simp add: k0)
  from f have "t = ''Linux''" "cid = 1" "url = ''https://x''" "title = ''A''"
    by (simp_all add: k0 chunk_linux_def)
  with res ms have "chercher_dans_nird_corps ?chunks ?vecs ''t'' ''linux''
       = Inr \<lparr>question = ''linux'', contexte = ''Linux'', confiance = fl (118 / 100),
              chunk_id = 1, source_url = ''https://x'', source_title = ''A'',
              timestamp = ''t''\<rparr>"
    by (simp add: tronquer_linux py_round_def round_half_even_def fl_exemples)
  with h s show ?thesis by simp
qed
section \<open>The terms of a vector\<close>

text \<open>
  C9, as amended: every term of the vector that \<open>nettoyer_et_vectoriser\<close> returns has a
  count of at least 1, is unchanged by lowercasing, consists of word characters (the
  \<open>\w\<close> of the regular expression: alphanumeric or the underscore), is longer than 2
  and is not a stopword. The claim says alphanumeric; the counterexample is a term with an
  underscore.
\<close>

theorem C9_termes_du_vecteur:
  "\<forall>(t, n) \<in> set (nettoyer_et_vectoriser texte).
      1 \<le> n \<and> lower_str t = t \<and> (\<forall>c \<in> set t. is_word_chr c) \<and> 2 < length t
      \<and> t \<notin> set stopwords"
proof -
  have "1 \<le> n \<and> lower_str t = t \<and> (\<forall>c \<in> set t. is_word_chr c) \<and> 2 < length t
      \<and> t \<notin> set stopwords" if tn: "(t, n) \<in> set (nettoyer_et_vectoriser texte)" for t n
  proof -
    from tn have "t \<in> fst ` set (nettoyer_et_vectoriser texte)" by force
    then have t: "t \<in> set (findall_w (lower_str texte))" "t \<notin> set stopwords" "2 < length t"
      unfolding nettoyer_et_vectoriser_keys by simp_all
    from findall_w_chars [OF t(1)] have sub: "set t \<subseteq> set (lower_str texte)"
      and word: "\<forall>c \<in> set t. is_word_chr c" by simp_all
    have "lower_chr c = c" if "c \<in> set t" for c
    proof -
      from that sub obtain d where "c = lower_chr d" by (auto simp: lower_str_def)
      then show ?thesis by (simp add: lower_chr_idem)
    qed
    then have "lower_str t = t" by (simp add: lower_str_def map_idI)
    moreover from nettoyer_et_vectoriser_counts tn have "1 \<le> n" by blast
    ultimately show ?thesis using t word by simp
  qed
  then show ?thesis by blast
qed

theorem C9_termes_du_vecteur_witness:
  "(''linux'', 2) \<in> set (nettoyer_et_vectoriser ''Le Linux, linux et la'')
   \<and> lower_str ''linux'' = ''linux'' \<and> ''linux'' \<notin> set stopwords"
proof -
  have "(''linux'', 2) \<in> set (nettoyer_et_vectoriser ''Le Linux, linux et la'')"
    by code_simp
  with C9_termes_du_vecteur [of "''Le Linux, linux et la''"] show ?thesis
    by blast
qed

theorem C9_counterexample:
  "(''a_b'', 1) \<in> set (nettoyer_et_vectoriser ''a_b'') \<and> CHR ''_'' \<in> set ''a_b''
   \<and> \<not> is_alnum_chr CHR ''_''"
  by code_simp

section \<open>Questions without a term\<close>

text \<open>
  C7: when every token of the lowercased question is a stopword or has at most 2
  characters (the empty question has no token at all), the term vector of the question is
  empty, its similarity with every vector is 0.0, no keyword of \<open>mots_forts\<close> can occur in
  it, and the query gives the fallback answer, whatever the corpus and the index.
\<close>

theorem C7_question_sans_terme:
  assumes "\<forall>t \<in> set (findall_w (lower_str q)). t \<in> set stopwords \<or> length t \<le> 2"
  shows "nettoyer_et_vectoriser q = []
         \<and> (\<forall>v. cosine_similarity (nettoyer_et_vectoriser q) v = Inr 0)
         \<and> chercher_dans_nird_corps chunks vecteurs now q = Inr (reponse_defaut q now)"
proof -
  have "filter (\<lambda>m. m \<notin> set stopwords \<and> 2 < length m) (findall_w (lower_str q)) = []"
    using assms by (auto simp: filter_empty_conv)
  then have vide: "nettoyer_et_vectoriser q = []"
    by (simp add: nettoyer_et_vectoriser_def counter_of_def)
  have "score_chunk q [] v = Inr 0" for v
    by (simp add: score_chunk_eq cosine_similarity_vide nb_mots_forts_zero [OF assms])
  then have "\<forall>v \<in> set vecteurs. \<exists>s. score_chunk q [] v = Inr s \<and> s \<le> 0" by simp
  then have "boucle q [] chunks 0 vecteurs (0, None) = Inr (0, None)"
    by (rule boucle_inchange)
  then have "chercher_dans_nird_corps chunks vecteurs now q = Inr (reponse_defaut q now)"
    using seuil_pos by (simp add: chercher_dans_nird_corps_def vide reponse_finale_def)
  with vide show ?thesis by (simp add: cosine_similarity_vide)
qed

theorem C7_question_sans_terme_witness:
  "nettoyer_et_vectoriser ''Qui est-ce ?'' = []
   \<and> chercher_dans_nird_corps [chunk_linux] [[(''linux'', 1)]] ''t'' ''Qui est-ce ?''
       = Inr (reponse_defaut ''Qui est-ce ?'' ''t'')
   \<and> chercher_dans_nird_corps [chunk_linux] [[(''linux'', 1)]] ''t'' ''''
       = Inr (reponse_defaut '''' ''t'')"
proof -
  have h1: "\<forall>t \<in> set (findall_w (lower_str ''Qui est-ce ?'')). t \<in> set stopwords \<or> length t \<le> 2"
    by code_simp
  have h2: "\<forall>t \<in> set (findall_w (lower_str '''')). t \<in> set stopwords \<or> length t \<le> 2"
    by code_simp
  from C7_question_sans_terme [OF h1] C7_question_sans_terme [OF h2] show ?thesis
    by blast
qed
section \<open>The threshold\<close>

text \<open>
  C1: over a corpus whose chunks carry their metadata, the query answers with the Match
  built from the winning chunk and the maximum score, rounded, exactly when some entry
  scores strictly above 0.12 (the double nearest to it), that is when the maximum score is
  above 0.12; otherwise it answers with the fallback. The two answers differ. In the
  witness a best score of exactly 0.12 gives the fallback, a best score of 0.16 gives a
  Match, and so does the score 0.12000000000000002, one unit in the last place above the
  threshold, that the floating-point operations give for a cosine whose exact value is
  0.12.
\<close>

theorem C1_seuil:
  assumes "vecteurs_chunks chunks = Inr vecteurs"
    and "entrees_python chunks q"
    and "\<forall>c \<in> set chunks.
           c_chunk_id c \<noteq> None \<and> c_source_url c \<noteq> None \<and> c_source_title c \<noteq> None"
  shows "if \<exists>v \<in> set vecteurs. \<exists>s. score_chunk q (nettoyer_et_vectoriser q) v = Inr s
                \<and> fl (12 / 100) < s
         then \<exists>k < length chunks. \<exists>ms t cid url title.
                c_text (chunks ! k) = Some t \<and> c_chunk_id (chunks ! k) = Some cid
                \<and> c_source_url (chunks ! k) = Some url
                \<and> c_source_title (chunks ! k) = Some title
                \<and> score_chunk q (nettoyer_et_vectoriser q) (vecteurs ! k) = Inr ms
                \<and> fl (12 / 100) < ms
                \<and> (\<forall>j < length chunks.
                      \<exists>s. score_chunk q (nettoyer_et_vectoriser q) (vecteurs ! j) = Inr s
                          \<and> s \<le> ms)
                \<and> chercher_dans_nird_corps chunks vecteurs now q
                    = Inr \<lparr>question = q, contexte = tronquer t, confiance = py_round ms 3,
                           chunk_id = cid, source_url = url, source_title = title,
                           timestamp = now\<rparr>
                \<and> chercher_dans_nird_corps chunks vecteurs now q \<noteq> Inr (reponse_defaut q now)
         else chercher_dans_nird_corps chunks vecteurs now q = Inr (reponse_defaut q now)"
proof (cases "\<exists>v \<in> set vecteurs. \<exists>s. score_chunk q (nettoyer_et_vectoriser q) v = Inr s
                \<and> fl (12 / 100) < s")
  case True
  let ?vq = "nettoyer_et_vectoriser q"
  from corps_match [OF assms(1,2) True, of now]
  obtain k ms t where k: "k < length chunks" "c_text (chunks ! k) = Some t"
    "score_chunk q ?vq (vecteurs ! k) = Inr ms" "fl (12 / 100) < ms"
    "\<forall>j < length chunks. \<exists>s. score_chunk q ?vq (vecteurs ! j) = Inr s \<and> s \<le> ms"
    "chercher_dans_nird_corps chunks vecteurs now q
       = reponse_finale q now (ms, Some (chunks ! k))"
    by blast
  from assms(3) k(1) obtain cid url title where f: "c_chunk_id (chunks ! k) = Some cid"
    "c_source_url (chunks ! k) = Some url" "c_source_title (chunks ! k) = Some title"
    by (metis nth_mem option.exhaust)
  have res: "chercher_dans_nird_corps chunks vecteurs now q
          = Inr \<lparr>question = q, contexte = tronquer t, confiance = py_round ms 3,
                 chunk_id = cid, source_url = url, source_title = title, timestamp = now\<rparr>"
    unfolding k(6) reponse_finale_match [OF k(4) k(2)] by (simp add: f)
  from confiance_match(2) [OF k(4)]
  have "chercher_dans_nird_corps chunks vecteurs now q \<noteq> Inr (reponse_defaut q now)"
    unfolding res by (auto simp: reponse_defaut_def)
  with k(1-5) f res True show ?thesis by (simp only: if_True) blast
next
  case False
  from corps_defaut [OF assms(1,2) False] False show ?thesis by (simp only: if_False)
qed

theorem C1_seuil_witness:
  "chercher_dans_nird_corps [chunk_seuil] [nettoyer_et_vectoriser (the (c_text chunk_seuil))]
      ''t'' question_seuil = Inr (reponse_defaut question_seuil ''t'')
   \<and> score_chunk question_seuil (nettoyer_et_vectoriser question_seuil)
        (nettoyer_et_vectoriser (the (c_text chunk_seuil))) = Inr (fl (12 / 100))
   \<and> chercher_dans_nird_corps [chunk_seuil] [nettoyer_et_vectoriser (the (c_text chunk_seuil))]
      ''t'' question_au_dessus
       = Inr \<lparr>question = question_au_dessus,
              contexte = ''aaa xxx xxx yyy yyy zzz zzz zzz zzz'', confiance = fl (16 / 100),
              chunk_id = 7, source_url = ''https://z'', source_title = ''C'',
              timestamp = ''t''\<rparr>
   \<and> score_chunk question_limite (nettoyer_et_vectoriser question_limite)
        (nettoyer_et_vectoriser texte_limite) = Inr (4323455642275677 / 2 ^ 55)
   \<and> fl (12 / 100) = 4323455642275676 / 2 ^ 55
   \<and> chercher_dans_nird_corps [chunk_limite] [nettoyer_et_vectoriser texte_limite]
      ''t'' question_limite
       = Inr \<lparr>question = question_limite, contexte = texte_limite, confiance = fl (12 / 100),
              chunk_id = 19, source_url = ''https://v'', source_title = ''V'',
              timestamp = ''t''\<rparr>"
proof -
  let ?vs = "nettoyer_et_vectoriser (the (c_text chunk_seuil))"
  have vs: "?vs = [(''aaa'', 1), (''xxx'', 2), (''yyy'', 2), (''zzz'', 4)]"
    by (simp add: chunk_seuil_def vec_chunk_seuil)
  have h: "vecteurs_chunks [chunk_seuil] = Inr [?vs]"
    by (simp add: chunk_seuil_def)
  have m: "\<forall>c \<in> set [chunk_seuil].
      c_chunk_id c \<noteq> None \<and> c_source_url c \<noteq> None \<and> c_source_title c \<noteq> None"
    by (simp add: chunk_seuil_def)
  have e1: "entrees_python [chunk_seuil] question_seuil"
    by (rule entrees_python_petit) (simp_all add: chunk_seuil_def question_seuil_def)
  have e2: "entrees_python [chunk_seuil] question_au_dessus"
    by (rule entrees_python_petit) (simp_all add: chunk_seuil_def question_au_dessus_def)
  have s1: "score_chunk question_seuil (nettoyer_et_vectoriser question_seuil) ?vs
      = Inr (fl (12 / 100))"
    by (simp only: vs vec_question_seuil score_seuil)
  have s2: "score_chunk question_au_dessus (nettoyer_et_vectoriser question_au_dessus) ?vs
      = Inr (fl (16 / 100))"
    by (simp only: vs vec_question_au_dessus score_au_dessus)
  have a: "chercher_dans_nird_corps [chunk_seuil] [?vs] ''t'' question_seuil
      = Inr (reponse_defaut question_seuil ''t'')"
    using C1_seuil [OF h e1 m, of "''t''"] by (simp add: s1)
  have c2: "\<exists>v \<in> set [?vs]. \<exists>s.
      score_chunk question_au_dessus (nettoyer_et_vectoriser question_au_dessus) v = Inr s
      \<and> fl (12 / 100) < s"
    using s2 seuil_lt_016 by (intro bexI [of _ ?vs] exI [of _ "fl (16 / 100)"]) simp_all
  note r2 = C1_seuil [OF h e2 m, of "''t''", unfolded if_P [OF c2]]
  from r2 obtain k ms t cid url title where k: "k < length [chunk_seuil]"
    and f: "c_text ([chunk_seuil] ! k) = Some t" "c_chunk_id ([chunk_seuil] ! k) = Some cid"
      "c_source_url ([chunk_seuil] ! k) = Some url"
      "c_source_title ([chunk_seuil] ! k) = Some title"
    and sc: "score_chunk question_au_dessus (nettoyer_et_vectoriser question_au_dessus)
               ([?vs] ! k) = Inr ms"
    and res: "chercher_dans_nird_corps [chunk_seuil] [?vs] ''t'' question_au_dessus
       = Inr \<lparr>question = question_au_dessus, contexte = tronquer t,
              confiance = py_round ms 3, chunk_id = cid, source_url = url,
              source_title = title, timestamp = ''t''\<rparr>"
    by blast
  from k have k0: "k = 0" by simp
  from sc s2 have ms: "ms = fl (16 / 100)" by (simp add: k0)
  from f have "t = ''aaa xxx xxx yyy yyy zzz zzz zzz zzz''" "cid = 7" "url = ''https://z''"
    "title = ''C''"
    by (simp_all add: k0 chunk_seuil_def)
  with res ms have b: "chercher_dans_nird_corps [chunk_seuil] [?vs] ''t'' question_au_dessus
       = Inr \<lparr>question = question_au_dessus,
              contexte = ''aaa xxx xxx yyy yyy zzz zzz zzz zzz'', confiance = fl (16 / 100),
              chunk_id = 7, source_url = ''https://z'', source_title = ''C'',
              timestamp = ''t''\<rparr>"
    by (simp add: tronquer_chunk_seuil py_round_def round_half_even_def fl_exemples)
  have h3: "vecteurs_chunks [chunk_limite] = Inr [nettoyer_et_vectoriser texte_limite]"
    by (simp add: chunk_limite_def)
  have m3: "\<forall>c \<in> set [chunk_limite].
      c_chunk_id c \<noteq> None \<and> c_source_url c \<noteq> None \<and> c_source_title c \<noteq> None"
    by (simp add: chunk_limite_def)
  have l: "length texte_limite \<le> 1000" by code_simp
  have e3: "entrees_python [chunk_limite] question_limite"
    by (rule entrees_python_petit) (simp_all add: chunk_limite_def question_limite_def l)
  have s3: "score_chunk question_limite (nettoyer_et_vectoriser question_limite)
        (nettoyer_et_vectoriser texte_limite) = Inr (4323455642275677 / 36028797018963968)"
    by (simp only: vec_question_limite vec_texte_limite score_limite)
  have c3: "\<exists>v \<in> set [nettoyer_et_vectoriser texte_limite]. \<exists>s.
      score_chunk question_limite (nettoyer_et_vectoriser question_limite) v = Inr s
      \<and> fl (12 / 100) < s"
    using s3 seuil_lt_limite
    by (intro bexI [of _ "nettoyer_et_vectoriser texte_limite"]
          exI [of _ "4323455642275677 / 36028797018963968"]) simp_all
  note r3 = C1_seuil [OF h3 e3 m3, of "''t''", unfolded if_P [OF c3]]
  from r3 obtain k' ms' t' cid' url' title' where k': "k' < length [chunk_limite]"
    and f': "c_text ([chunk_limite] ! k') = Some t'"
      "c_chunk_id ([chunk_limite] ! k') = Some cid'"
      "c_source_url ([chunk_limite] ! k') = Some url'"
      "c_source_title ([chunk_limite] ! k') = Some title'"
    and sc': "score_chunk question_limite (nettoyer_et_vectoriser question_limite)
               ([nettoyer_et_vectoriser texte_limite] ! k') = Inr ms'"
    and res': "chercher_dans_nird_corps [chunk_limite] [nettoyer_et_vectoriser texte_limite]
         ''t'' question_limite
       = Inr \<lparr>question = question_limite, contexte = tronquer t',
              confiance = py_round ms' 3, chunk_id = cid', source_url = url',
              source_title = title', timestamp = ''t''\<rparr>"
    by blast
  from k' have k0': "k' = 0" by simp
  from sc' s3 have ms': "ms' = 4323455642275677 / 36028797018963968" by (simp add: k0')
  from f' have "t' = texte_limite" "cid' = 19" "url' = ''https://v''" "title' = ''V''"
    by (simp_all add: k0' chunk_limite_def)
  with res' ms' have c: "chercher_dans_nird_corps [chunk_limite]
      [nettoyer_et_vectoriser texte_limite] ''t'' question_limite
       = Inr \<lparr>question = question_limite, contexte = texte_limite, confiance = fl (12 / 100),
              chunk_id = 19, source_url = ''https://v'', source_title = ''V'',
              timestamp = ''t''\<rparr>"
    by (simp add: tronquer_limite py_round_def round_half_even_def fl_exemples)
  have f: "fl (12 / 100) = 4323455642275676 / 2 ^ 55" by (simp add: fl_012)
  from a s1 b s3 f c show ?thesis by simp
qed
section \<open>The text of a Match\<close>

text \<open>
  C5, as amended: the answer of a Match carries the text of the winning chunk, stripped of
  leading and trailing whitespace. When the stripped text has more than 600 characters,
  it is cut before the last space character (U+0020) among its first 600 characters and
  \<open>...\<close> is appended; without a space among them, all 600 characters are kept before the
  \<open>...\<close>. A stripped text of at most 600 characters is returned as stripped. The witness
  is a text of 650 characters whose only space is at position 590. The claim speaks of
  whitespace and of never cutting a word, and of short texts returned unchanged; in the
  counterexample a text of 650 characters has a line feed at position 590 and is cut
  at 600 between two letters, and a short text loses its final space.
\<close>

theorem C5_troncature:
  assumes "vecteurs_chunks chunks = Inr vecteurs"
    and "chercher_dans_nird_corps chunks vecteurs now q = Inr r"
    and "r \<noteq> reponse_defaut q now"
  shows "\<exists>k < length chunks. \<exists>t. c_text (chunks ! k) = Some t
           \<and> c_chunk_id (chunks ! k) = Some (chunk_id r)
           \<and> (let s = strip t in
                if length s \<le> 600 then contexte r = s
                else if \<exists>p < 600. s ! p = CHR '' ''
                     then \<exists>p < 600. s ! p = CHR '' ''
                            \<and> (\<forall>i < 600. p < i \<longrightarrow> s ! i \<noteq> CHR '' '')
                            \<and> contexte r = take p s @ ''...''
                     else contexte r = take 600 s @ ''...'')"
proof -
  let ?vq = "nettoyer_et_vectoriser q"
  from corps_Inr [OF assms(1,2)]
  obtain ms mc where run: "boucle q ?vq chunks 0 vecteurs (0, None) = Inr (ms, mc)"
    and fin: "reponse_finale q now (ms, mc) = Inr r"
    and alt: "ms = 0 \<and> mc = None
                \<or> 0 < ms \<and> (\<exists>k < length chunks. mc = Some (chunks ! k)
                      \<and> score_chunk q ?vq (vecteurs ! k) = Inr ms)"
    by blast
  have big: "fl (12 / 100) < ms"
  proof (rule ccontr)
    assume "\<not> fl (12 / 100) < ms"
    with fin have "r = reponse_defaut q now" by (simp add: reponse_finale_def)
    with assms(3) show False by simp
  qed
  with seuil_pos have "ms \<noteq> 0" by simp
  with alt obtain k where k: "k < length chunks" "mc = Some (chunks ! k)" by auto
  from fin big k(2) obtain t where t: "c_text (chunks ! k) = Some t"
    "c_chunk_id (chunks ! k) = Some (chunk_id r)" "contexte r = tronquer t"
    by (auto simp: reponse_finale_def split: option.splits)
  have "let s = strip t in
                if length s \<le> 600 then contexte r = s
                else if \<exists>p < 600. s ! p = CHR '' ''
                     then \<exists>p < 600. s ! p = CHR '' ''
                            \<and> (\<forall>i < 600. p < i \<longrightarrow> s ! i \<noteq> CHR '' '')
                            \<and> contexte r = take p s @ ''...''
                     else contexte r = take 600 s @ ''...''"
    unfolding t(3) by (rule tronquer_coupe)
  with k(1) t(1,2) show ?thesis by blast
qed

theorem C5_troncature_witness:
  "vecteurs_chunks [chunk_long] = Inr [nettoyer_et_vectoriser texte_long]
   \<and> chercher_dans_nird_corps [chunk_long] [nettoyer_et_vectoriser texte_long] ''t'' ''linux''
       = Inr reponse_long
   \<and> reponse_long \<noteq> reponse_defaut ''linux'' ''t''
   \<and> contexte reponse_long = replicate 590 CHR ''a'' @ ''...''
   \<and> (\<exists>k < length [chunk_long]. \<exists>t. c_text ([chunk_long] ! k) = Some t
           \<and> c_chunk_id ([chunk_long] ! k) = Some (chunk_id reponse_long)
           \<and> (let s = strip t in
                if length s \<le> 600 then contexte reponse_long = s
                else if \<exists>p < 600. s ! p = CHR '' ''
                     then \<exists>p < 600. s ! p = CHR '' ''
                            \<and> (\<forall>i < 600. p < i \<longrightarrow> s ! i \<noteq> CHR '' '')
                            \<and> contexte reponse_long = take p s @ ''...''
                     else contexte reponse_long = take 600 s @ ''...''))"
proof -
  have h1: "vecteurs_chunks [chunk_long] = Inr [nettoyer_et_vectoriser texte_long]"
    by (simp add: chunk_long_def)
  have h3: "reponse_long \<noteq> reponse_defaut ''linux'' ''t''"
    by (simp add: reponse_long_def reponse_defaut_def)
  have c: "contexte reponse_long = replicate 590 CHR ''a'' @ ''...''"
    by (simp add: reponse_long_def)
  from C5_troncature [OF h1 reponse_long_eval h3] h1 reponse_long_eval h3 c
  show ?thesis by blast
qed

theorem C5_counterexample:
  "length texte_saut = 650 \<and> isspace_chr (texte_saut ! 590)
   \<and> is_word_chr (texte_saut ! 599) \<and> is_word_chr (texte_saut ! 600)
   \<and> take 600 texte_saut \<noteq> take 590 texte_saut
   \<and> chercher_dans_nird_corps [chunk_saut] [nettoyer_et_vectoriser texte_saut] ''t'' ''linux''
       = Inr reponse_saut
   \<and> contexte reponse_saut = take 600 texte_saut @ ''...''
   \<and> c_text chunk_espace = Some ''Linux ''
   \<and> chercher_dans_nird_corps [chunk_espace] [nettoyer_et_vectoriser ''Linux ''] ''t'' ''linux''
       = Inr reponse_espace
   \<and> contexte reponse_espace = ''Linux'' \<and> ''Linux'' \<noteq> ''Linux ''"
  using texte_saut_faits reponse_saut_eval reponse_espace_eval
  by (simp add: reponse_saut_def reponse_espace_def chunk_espace_def)
section \<open>Chunks with missing fields\<close>

text \<open>
  C3, as amended: the index is built exactly when every chunk has a \<open>text\<close>, and a chunk
  without one makes its construction raise \<open>KeyError('text')\<close>. Over an index that was
  built, when some entry scores above the threshold the answer is made from the first
  chunk of maximal score: if that chunk lacks \<open>chunk_id\<close>, \<open>source_url\<close> or
  \<open>source_title\<close> the query raises the \<open>KeyError\<close> of the first field it lacks, and
  otherwise it answers with the fields of the chunk; without such an entry it gives the
  fallback. So the query answers whenever every chunk carries the three fields, and when
  it fails a chunk of the corpus lacks one of them. The claim says that an empty string
  stands in for a missing field; the code reads every field with a plain subscript.
\<close>

theorem C3_champs_manquants:
  "vecteurs_chunks chunks =
     (if \<forall>c \<in> set chunks. c_text c \<noteq> None
      then Inr (map (\<lambda>c. nettoyer_et_vectoriser (the (c_text c))) chunks)
      else Inl (KeyError ''text''))
   \<and> (vecteurs_chunks chunks = Inr vecteurs \<longrightarrow> entrees_python chunks q \<longrightarrow>
        (if \<exists>v \<in> set vecteurs. \<exists>s. score_chunk q (nettoyer_et_vectoriser q) v = Inr s
               \<and> fl (12 / 100) < s
         then \<exists>k < length chunks. \<exists>ms t.
                c_text (chunks ! k) = Some t
                \<and> score_chunk q (nettoyer_et_vectoriser q) (vecteurs ! k) = Inr ms
                \<and> (\<forall>j < length chunks.
                      \<exists>s. score_chunk q (nettoyer_et_vectoriser q) (vecteurs ! j) = Inr s
                          \<and> s \<le> ms)
                \<and> (\<forall>j < k.
                      \<exists>s. score_chunk q (nettoyer_et_vectoriser q) (vecteurs ! j) = Inr s
                          \<and> s < ms)
                \<and> chercher_dans_nird_corps chunks vecteurs now q
                    = (case c_chunk_id (chunks ! k) of
                         None \<Rightarrow> Inl (KeyError ''chunk_id'')
                       | Some cid \<Rightarrow>
                          (case c_source_url (chunks ! k) of
                             None \<Rightarrow> Inl (KeyError ''source_url'')
                           | Some url \<Rightarrow>
                              (case c_source_title (chunks ! k) of
                                 None \<Rightarrow> Inl (KeyError ''source_title'')
                               | Some title \<Rightarrow>
                                  Inr \<lparr>question = q, contexte = tronquer t,
                                       confiance = py_round ms 3, chunk_id = cid,
                                       source_url = url, source_title = title,
                                       timestamp = now\<rparr>)))
         else chercher_dans_nird_corps chunks vecteurs now q = Inr (reponse_defaut q now)))
   \<and> (vecteurs_chunks chunks = Inr vecteurs \<longrightarrow> entrees_python chunks q \<longrightarrow>
        (\<forall>c \<in> set chunks.
            c_chunk_id c \<noteq> None \<and> c_source_url c \<noteq> None \<and> c_source_title c \<noteq> None) \<longrightarrow>
        (\<exists>r. chercher_dans_nird_corps chunks vecteurs now q = Inr r))
   \<and> (vecteurs_chunks chunks = Inr vecteurs \<longrightarrow> entrees_python chunks q \<longrightarrow>
        (\<forall>e. chercher_dans_nird_corps chunks vecteurs now q = Inl e \<longrightarrow>
           (\<exists>c \<in> set chunks.
              e = (if c_chunk_id c = None then KeyError ''chunk_id''
                   else if c_source_url c = None then KeyError ''source_url''
                   else KeyError ''source_title'')
              \<and> (c_chunk_id c = None \<or> c_source_url c = None \<or> c_source_title c = None))))"
proof -
  let ?vq = "nettoyer_et_vectoriser q"
  let ?cond = "\<exists>v \<in> set vecteurs. \<exists>s. score_chunk q ?vq v = Inr s \<and> fl (12 / 100) < s"
  let ?rep = "\<lambda>k ms t. case c_chunk_id (chunks ! k) of
                         None \<Rightarrow> Inl (KeyError ''chunk_id'')
                       | Some cid \<Rightarrow>
                          (case c_source_url (chunks ! k) of
                             None \<Rightarrow> Inl (KeyError ''source_url'')
                           | Some url \<Rightarrow>
                              (case c_source_title (chunks ! k) of
                                 None \<Rightarrow> Inl (KeyError ''source_title'')
                               | Some title \<Rightarrow>
                                  Inr \<lparr>question = q, contexte = tronquer t,
                                       confiance = py_round ms 3, chunk_id = cid,
                                       source_url = url, source_title = title,
                                       timestamp = now\<rparr>))"
  have A: "vecteurs_chunks chunks =
     (if \<forall>c \<in> set chunks. c_text c \<noteq> None
      then Inr (map (\<lambda>c. nettoyer_et_vectoriser (the (c_text c))) chunks)
      else Inl (KeyError ''text''))"
    by (rule vecteurs_chunks_eq)
  have win: "\<exists>k < length chunks. \<exists>ms t.
                c_text (chunks ! k) = Some t
                \<and> score_chunk q ?vq (vecteurs ! k) = Inr ms
                \<and> (\<forall>j < length chunks. \<exists>s. score_chunk q ?vq (vecteurs ! j) = Inr s \<and> s \<le> ms)
                \<and> (\<forall>j < k. \<exists>s. score_chunk q ?vq (vecteurs ! j) = Inr s \<and> s < ms)
                \<and> chercher_dans_nird_corps chunks vecteurs now q = ?rep k ms t"
    if idx: "vecteurs_chunks chunks = Inr vecteurs" and ep: "entrees_python chunks q"
      and c: ?cond
  proof -
    from corps_match [OF idx ep c, of now]
    obtain k ms t where k: "k < length chunks" "c_text (chunks ! k) = Some t"
      "score_chunk q ?vq (vecteurs ! k) = Inr ms" "fl (12 / 100) < ms"
      "\<forall>j < length chunks. \<exists>s. score_chunk q ?vq (vecteurs ! j) = Inr s \<and> s \<le> ms"
      "\<forall>j < k. \<exists>s. score_chunk q ?vq (vecteurs ! j) = Inr s \<and> s < ms"
      "chercher_dans_nird_corps chunks vecteurs now q
         = reponse_finale q now (ms, Some (chunks ! k))"
      by blast
    have "chercher_dans_nird_corps chunks vecteurs now q = ?rep k ms t"
      unfolding k(7) by (rule reponse_finale_match [OF k(4) k(2)])
    with k(1-3,5,6) show ?thesis by blast
  qed
  have B: "if ?cond
         then \<exists>k < length chunks. \<exists>ms t.
                c_text (chunks ! k) = Some t
                \<and> score_chunk q ?vq (vecteurs ! k) = Inr ms
                \<and> (\<forall>j < length chunks. \<exists>s. score_chunk q ?vq (vecteurs ! j) = Inr s \<and> s \<le> ms)
                \<and> (\<forall>j < k. \<exists>s. score_chunk q ?vq (vecteurs ! j) = Inr s \<and> s < ms)
                \<and> chercher_dans_nird_corps chunks vecteurs now q = ?rep k ms t
         else chercher_dans_nird_corps chunks vecteurs now q = Inr (reponse_defaut q now)"
    if idx: "vecteurs_chunks chunks = Inr vecteurs" and ep: "entrees_python chunks q"
  proof (cases ?cond)
    case True
    from win [OF idx ep True] True show ?thesis by (simp only: if_True)
  next
    case False
    from corps_defaut [OF idx ep False] False show ?thesis by (simp only: if_False)
  qed
  have C: "\<exists>r. chercher_dans_nird_corps chunks vecteurs now q = Inr r"
    if idx: "vecteurs_chunks chunks = Inr vecteurs" and ep: "entrees_python chunks q"
      and meta: "\<forall>c \<in> set chunks.
            c_chunk_id c \<noteq> None \<and> c_source_url c \<noteq> None \<and> c_source_title c \<noteq> None"
  proof (cases ?cond)
    case True
    from win [OF idx ep True] obtain k ms t where k: "k < length chunks"
      "chercher_dans_nird_corps chunks vecteurs now q = ?rep k ms t" by blast
    from meta k(1) obtain cid url title where "c_chunk_id (chunks ! k) = Some cid"
      "c_source_url (chunks ! k) = Some url" "c_source_title (chunks ! k) = Some title"
      by (metis nth_mem option.exhaust)
    with k(2) show ?thesis by simp
  next
    case False
    from corps_defaut [OF idx ep False] show ?thesis by simp
  qed
  have D: "\<exists>c \<in> set chunks.
              e = (if c_chunk_id c = None then KeyError ''chunk_id''
                   else if c_source_url c = None then KeyError ''source_url''
                   else KeyError ''source_title'')
              \<and> (c_chunk_id c = None \<or> c_source_url c = None \<or> c_source_title c = None)"
    if idx: "vecteurs_chunks chunks = Inr vecteurs" and ep: "entrees_python chunks q"
      and err: "chercher_dans_nird_corps chunks vecteurs now q = Inl e" for e
  proof (cases ?cond)
    case True
    from win [OF idx ep True] obtain k ms t where k: "k < length chunks"
      "chercher_dans_nird_corps chunks vecteurs now q = ?rep k ms t" by blast
    from err k(2)
    have "e = (if c_chunk_id (chunks ! k) = None then KeyError ''chunk_id''
                   else if c_source_url (chunks ! k) = None then KeyError ''source_url''
                   else KeyError ''source_title'')
        \<and> (c_chunk_id (chunks ! k) = None \<or> c_source_url (chunks ! k) = None
            \<or> c_source_title (chunks ! k) = None)"
      by (auto split: option.splits)
    moreover from k(1) have "chunks ! k \<in> set chunks" by simp
    ultimately show ?thesis by blast
  next
    case False
    from corps_defaut [OF idx ep False] err show ?thesis by simp
  qed
  from A B C D show ?thesis by blast
qed

theorem C3_champs_manquants_witness:
  "vecteurs_chunks [chunk_sans_url] = Inr [[(''linux'', 1)]]
   \<and> entrees_python [chunk_sans_url] ''linux''
   \<and> c_chunk_id chunk_sans_url = Some 9 \<and> c_source_url chunk_sans_url = None
   \<and> chercher_dans_nird_corps [chunk_sans_url] [[(''linux'', 1)]] ''t'' ''linux''
       = Inl (KeyError ''source_url'')
   \<and> vecteurs_chunks [chunk_linux] = Inr [[(''linux'', 1)]]
   \<and> (\<exists>r. chercher_dans_nird_corps [chunk_linux] [[(''linux'', 1)]] ''t'' ''linux'' = Inr r)"
proof -
  let ?vq = "nettoyer_et_vectoriser ''linux''"
  have h: "vecteurs_chunks [chunk_sans_url] = Inr [[(''linux'', 1)]]"
    by (simp add: chunk_sans_url_def vec_linux)
  have e: "entrees_python [chunk_sans_url] ''linux''"
    by (rule entrees_python_petit) (auto simp: chunk_sans_url_def)
  have s: "score_chunk ''linux'' ?vq [(''linux'', 1)] = Inr (fl (118 / 100))"
    by (simp only: vec_q_linux score_linux)
  have c: "\<exists>v \<in> set [[(''linux'', 1)]]. \<exists>s. score_chunk ''linux'' ?vq v = Inr s
      \<and> fl (12 / 100) < s"
    using s seuil_lt_118
    by (intro bexI [of _ "[(''linux'', 1)]"] exI [of _ "fl (118 / 100)"]) simp_all
  note r = C3_champs_manquants [of "[chunk_sans_url]" "[[(''linux'', 1)]]" "''linux''" "''t''",
      THEN conjunct2, THEN conjunct1, THEN mp, OF h, THEN mp, OF e, unfolded if_P [OF c]]
  from r obtain k ms t where k: "k < length [chunk_sans_url]"
    and res: "chercher_dans_nird_corps [chunk_sans_url] [[(''linux'', 1)]] ''t'' ''linux''
       = (case c_chunk_id ([chunk_sans_url] ! k) of
                         None \<Rightarrow> Inl (KeyError ''chunk_id'')
                       | Some cid \<Rightarrow>
                          (case c_source_url ([chunk_sans_url] ! k) of
                             None \<Rightarrow> Inl (KeyError ''source_url'')
                           | Some url \<Rightarrow>
                              (case c_source_title ([chunk_sans_url] ! k) of
                                 None \<Rightarrow> Inl (KeyError ''source_title'')
                               | Some title \<Rightarrow>
                                  Inr \<lparr>question = ''linux'', contexte = tronquer t,
                                       confiance = py_round ms 3, chunk_id = cid,
                                       source_url = url, source_title = title,
                                       timestamp = ''t''\<rparr>)))"
    by blast
  from k have k0: "k = 0" by simp
  from res have a: "chercher_dans_nird_corps [chunk_sans_url] [[(''linux'', 1)]] ''t'' ''linux''
       = Inl (KeyError ''source_url'')"
    by (simp add: k0 chunk_sans_url_def)
  have h2: "vecteurs_chunks [chunk_linux] = Inr [[(''linux'', 1)]]"
    by (simp add: chunk_linux_def vec_linux)
  have e2: "entrees_python [chunk_linux] ''linux''"
    by (rule entrees_python_petit) (auto simp: chunk_linux_def)
  have m2: "\<forall>c \<in> set [chunk_linux].
            c_chunk_id c \<noteq> None \<and> c_source_url c \<noteq> None \<and> c_source_title c \<noteq> None"
    by (simp add: chunk_linux_def)
  note r2 = C3_champs_manquants [of "[chunk_linux]" "[[(''linux'', 1)]]" "''linux''" "''t''",
      THEN conjunct2, THEN conjunct2, THEN conjunct1, THEN mp, OF h2, THEN mp, OF e2,
      THEN mp, OF m2]
  have f: "c_chunk_id chunk_sans_url = Some 9" "c_source_url chunk_sans_url = None"
    by (simp_all add: chunk_sans_url_def)
  from h e f a h2 r2 show ?thesis by blast
qed

theorem C3_counterexample:
  "vecteurs_chunks [chunk_linux, chunk_sans_texte] = Inl (KeyError ''text'')
   \<and> vecteurs_chunks [chunk_sans_url] = Inr [[(''linux'', 1)]]
   \<and> chercher_dans_nird_corps [chunk_sans_url] [[(''linux'', 1)]] ''t'' ''linux''
       = Inl (KeyError ''source_url'')"
  by (simp add: chunk_linux_def chunk_sans_texte_def chunk_sans_url_def vec_linux
      chercher_dans_nird_corps_def vec_q_linux score_linux Let_def reponse_finale_def
      fl_exemples)
end
